theory Spec2Isabelle
  imports Main "HOL-Library.Char_ord" "HOL-Library.List_Lexorder"
begin

section \<open>Rooms: a disjoint-set forest on a store (room.py)\<close>

text \<open>
  A \<^verbatim>\<open>Room\<close> object is mutable and is shared by reference (grid cells and the
  \<^verbatim>\<open>merged_into\<close> links alias it), so rooms live in an explicit store: an address is
  a natural number, the store maps every address to the record held there, and a
  reference to a room is its address.  Object identity (\<^verbatim>\<open>is\<close>, and \<^verbatim>\<open>!=\<close> on rooms,
  which define no \<^verbatim>\<open>__eq__\<close>) is equality of addresses.
\<close>

datatype chair = W | P | S | C

type_synonym addr = nat

record room =
  id' :: int
  name :: "string option"
  chairs :: "chair \<Rightarrow> int"
  merged_into :: "addr option"

type_synonym heap = "addr \<Rightarrow> room"

datatype error = RecursionError | IndexError | KeyError

text \<open>\<^verbatim>\<open>Room.__init__\<close>: no name, four zero counts, no forward pointer.\<close>

definition Room :: "int \<Rightarrow> room" where
  "Room i = \<lparr>id' = i, name = None, chairs = (\<lambda>_. 0), merged_into = None\<rparr>"

text \<open>The key order of the \<^verbatim>\<open>chairs\<close> dictionary, which is also \<^verbatim>\<open>CHAIR_TYPES\<close>.\<close>

definition CHAIR_TYPES :: "chair list" where
  "CHAIR_TYPES = [W, P, S, C]"

text \<open>Python truthiness of an optional string: \<^verbatim>\<open>None\<close> and \<^verbatim>\<open>""\<close> are false.\<close>

fun truthy :: "string option \<Rightarrow> bool" where
  "truthy None = False"
| "truthy (Some s) = (s \<noteq> [])"

text \<open>
  \<^verbatim>\<open>self.merge_with(other)\<close>, statement by statement on the store, so that the aliased
  call (\<^verbatim>\<open>self is other\<close>) is modelled too.  The result is the store and the returned
  reference (\<^verbatim>\<open>self\<close>).
\<close>

definition add_chair :: "addr \<Rightarrow> addr \<Rightarrow> chair \<Rightarrow> heap \<Rightarrow> heap" where
  "add_chair self other t h =
     h(self := (h self)\<lparr>chairs := (chairs (h self))(t := chairs (h self) t + chairs (h other) t)\<rparr>)"

definition merge_with :: "heap \<Rightarrow> addr \<Rightarrow> addr \<Rightarrow> heap \<times> addr" where
  "merge_with h self other =
     (let h1 = fold (add_chair self other) CHAIR_TYPES h;
          h2 = (if truthy (name (h1 other)) \<and> \<not> truthy (name (h1 self))
                then h1(self := (h1 self)\<lparr>name := name (h1 other)\<rparr>) else h1);
          h3 = h2(other := (h2 other)\<lparr>merged_into := Some self\<rparr>)
      in (h3, self))"

text \<open>
  \<^verbatim>\<open>self.final()\<close>.  The recursion follows \<^verbatim>\<open>merged_into\<close> links and is not structural:
  the first argument bounds its depth (the frames the interpreter still allows), and
  a recursion that does not reach a root within that depth is \<^verbatim>\<open>RecursionError\<close>, which
  is also what a cyclic chain of links gives.  On the way back every visited room is
  linked to the root directly.
\<close>

fun final :: "nat \<Rightarrow> heap \<Rightarrow> addr \<Rightarrow> error + (heap \<times> addr)" where
  "final 0 h self = Inl RecursionError"
| "final (Suc n) h self =
     (case merged_into (h self) of
        None \<Rightarrow> Inr (h, self)
      | Some p \<Rightarrow>
          (case final n h p of
             Inl e \<Rightarrow> Inl e
           | Inr (h1, r) \<Rightarrow> Inr (h1(self := (h1 self)\<lparr>merged_into := Some r\<rparr>), r)))"

text \<open>
  The ultimate root of a room, as a relation on the store: \<open>root_of h r a\<close> holds when
  following the links from \<open>r\<close> ends at the room \<open>a\<close>, which has no link.
\<close>

inductive root_of :: "heap \<Rightarrow> addr \<Rightarrow> addr \<Rightarrow> bool" for h :: heap where
  root_self: "merged_into (h r) = None \<Longrightarrow> root_of h r r"
| root_step: "merged_into (h r) = Some p \<Longrightarrow> root_of h p a \<Longrightarrow> root_of h r a"

code_pred root_of .

text \<open>Calling \<^verbatim>\<open>final\<close> on each room of a list in turn, results discarded.\<close>

fun finals :: "nat \<Rightarrow> heap \<Rightarrow> addr list \<Rightarrow> error + heap" where
  "finals n h [] = Inr h"
| "finals n h (r # rs) =
     (case final n h r of Inl e \<Rightarrow> Inl e | Inr (h1, _) \<Rightarrow> finals n h1 rs)"

section \<open>The grid (grid.py)\<close>

definition WALL_CHARS :: "char set" where
  "WALL_CHARS = {CHR ''-'', CHR ''|'', CHR ''+'', CHR ''/'', CHR 0x5C}"

text \<open>
  \<^verbatim>\<open>str.splitlines()\<close> of the Python library, on characters below 256: the line
  boundaries are LF, CR, CR LF (one boundary), VT, FF, FS, GS, RS and NEL; a boundary
  ends the current line, and text after the last boundary is a line only when it is
  not empty.
\<close>

definition is_linebreak :: "char \<Rightarrow> bool" where
  "is_linebreak c \<longleftrightarrow>
     c \<in> {CHR 0x0A, CHR 0x0D, CHR 0x0B, CHR 0x0C, CHR 0x1C, CHR 0x1D, CHR 0x1E, CHR 0x85}"

fun splitlines_from :: "string \<Rightarrow> string \<Rightarrow> string list" where
  "splitlines_from acc [] = (if acc = [] then [] else [rev acc])"
| "splitlines_from acc [c] =
     (if is_linebreak c then [rev acc] else [rev (c # acc)])"
| "splitlines_from acc (c # d # cs) =
     (if c = CHR 0x0D \<and> d = CHR 0x0A then rev acc # splitlines_from [] cs
      else if is_linebreak c then rev acc # splitlines_from [] (d # cs)
      else splitlines_from (c # acc) (d # cs))"

definition splitlines :: "string \<Rightarrow> string list" where
  "splitlines text = splitlines_from [] text"

record grid =
  lines :: "string list"
  height :: nat
  width :: nat
  cells :: "addr option list list"

text \<open>
  \<^verbatim>\<open>Grid.__init__\<close>.  Lengths are naturals, so the maximum of the line lengths
  starting from 0 is \<^verbatim>\<open>max(len(line) for line in lines) if lines else 0\<close>.
\<close>

definition Grid :: "string \<Rightarrow> grid" where
  "Grid text =
     (let ls = splitlines text; ht = length ls; wd = fold max (map length ls) 0
      in \<lparr>lines = ls, height = ht, width = wd, cells = replicate ht (replicate wd None)\<rparr>)"

definition get_char :: "grid \<Rightarrow> int \<Rightarrow> int \<Rightarrow> char" where
  "get_char g x y =
     (if y < 0 \<or> y \<ge> int (height g) then CHR '' ''
      else if x < 0 \<or> x \<ge> int (length (lines g ! nat y)) then CHR '' ''
      else lines g ! nat y ! nat x)"

definition is_wall :: "grid \<Rightarrow> int \<Rightarrow> int \<Rightarrow> bool" where
  "is_wall g x y \<longleftrightarrow> get_char g x y \<in> WALL_CHARS"

definition get_room :: "grid \<Rightarrow> int \<Rightarrow> int \<Rightarrow> addr option" where
  "get_room g x y =
     (if y < 0 \<or> y \<ge> int (height g) then None
      else if x < 0 \<or> x \<ge> int (width g) then None
      else cells g ! nat y ! nat x)"

text \<open>
  A Python list index: a position of a list of length \<open>n\<close>, counted from the end
  when negative, and \<^verbatim>\<open>IndexError\<close> outside \<open>[-n, n)\<close>.
\<close>

definition py_index :: "nat \<Rightarrow> int \<Rightarrow> nat option" where
  "py_index n i =
     (if 0 \<le> i \<and> i < int n then Some (nat i)
      else if - int n \<le> i \<and> i < 0 then Some (nat (int n + i))
      else None)"

definition set_room :: "grid \<Rightarrow> int \<Rightarrow> int \<Rightarrow> addr \<Rightarrow> error + grid" where
  "set_room g x y r =
     (case py_index (length (cells g)) y of
        None \<Rightarrow> Inl IndexError
      | Some j \<Rightarrow>
          (case py_index (length (cells g ! j)) x of
             None \<Rightarrow> Inl IndexError
           | Some i \<Rightarrow> Inr (g\<lparr>cells := (cells g)[j := (cells g ! j)[i := Some r]]\<rparr>)))"

definition get_connected_room_above :: "grid \<Rightarrow> int \<Rightarrow> int \<Rightarrow> addr option" where
  "get_connected_room_above g x y =
     (if y \<le> 0 then None
      else if is_wall g x (y - 1) then None
      else get_room g x (y - 1))"

text \<open>A \<^verbatim>\<open>for\<close> loop whose body may raise: the first error ends the loop.\<close>

fun for_each :: "('a \<Rightarrow> 's \<Rightarrow> error + 's) \<Rightarrow> 'a list \<Rightarrow> 's \<Rightarrow> error + 's" where
  "for_each body [] s = Inr s"
| "for_each body (x # xs) s =
     (case body x s of Inl e \<Rightarrow> Inl e | Inr s1 \<Rightarrow> for_each body xs s1)"

text \<open>Python's \<^verbatim>\<open>str\<close> of an integer: decimal digits, with a minus sign when negative.\<close>

fun digits :: "nat \<Rightarrow> string" where
  "digits n = (if n < 10 then [char_of (48 + n)] else digits (n div 10) @ [char_of (48 + n mod 10)])"

declare digits.simps [simp del]

definition str_int :: "int \<Rightarrow> string" where
  "str_int i = (if i < 0 then CHR ''-'' # digits (nat (- i)) else digits (nat i))"

definition warning_message :: "int \<Rightarrow> int \<Rightarrow> string" where
  "warning_message i total_chairs =
     ''WARNING: Unnamed room (id='' @ str_int i @ '') contains '' @ str_int total_chairs @
     '' chair(s) - not included in output''"

text \<open>
  \<^verbatim>\<open>extract_unique_rooms\<close>.  The loop state is the store (which \<^verbatim>\<open>final\<close> compresses),
  \<^verbatim>\<open>seen_ids\<close>, the list \<^verbatim>\<open>rooms\<close> (of references) and the lines printed to the error
  stream so far.
\<close>

type_synonym extraction = "heap \<times> int set \<times> addr list \<times> string list"

definition extract_cell :: "nat \<Rightarrow> addr option \<Rightarrow> extraction \<Rightarrow> error + extraction" where
  "extract_cell limit cell st =
     (case st of (h, seen_ids, rooms, err) \<Rightarrow>
        (case cell of
           None \<Rightarrow> Inr st
         | Some c \<Rightarrow>
             (case final limit h c of
                Inl e \<Rightarrow> Inl e
              | Inr (h1, r) \<Rightarrow>
                  if id' (h1 r) \<notin> seen_ids then
                    (if name (h1 r) \<noteq> None
                     then Inr (h1, insert (id' (h1 r)) seen_ids, rooms @ [r], err)
                     else
                       (let total_chairs = sum_list (map (chairs (h1 r)) CHAIR_TYPES)
                        in if total_chairs > 0
                           then Inr (h1, insert (id' (h1 r)) seen_ids, rooms,
                                     err @ [warning_message (id' (h1 r)) total_chairs])
                           else Inr (h1, insert (id' (h1 r)) seen_ids, rooms, err)))
                  else Inr (h1, seen_ids, rooms, err))))"

definition extract_unique_rooms ::
    "nat \<Rightarrow> grid \<Rightarrow> heap \<Rightarrow> error + (heap \<times> addr list \<times> string list)" where
  "extract_unique_rooms limit g h =
     (case for_each (\<lambda>row. for_each (extract_cell limit) row) (cells g) (h, {}, [], []) of
        Inl e \<Rightarrow> Inl e
      | Inr (h1, seen_ids, rooms, err) \<Rightarrow> Inr (h1, rooms, err))"

section \<open>The scanner (parser.py)\<close>

definition CHAIR_CHARS :: "char set" where
  "CHAIR_CHARS = {CHR ''W'', CHR ''P'', CHR ''S'', CHR ''C''}"

text \<open>The key of the \<^verbatim>\<open>chairs\<close> dictionary that a one-character string is, if any.\<close>

definition chair_key :: "char \<Rightarrow> chair option" where
  "chair_key c =
     (if c = CHR ''W'' then Some W else if c = CHR ''P'' then Some P
      else if c = CHR ''S'' then Some S else if c = CHR ''C'' then Some C else None)"

text \<open>
  The variables of \<^verbatim>\<open>parse\<close>, with the store of the rooms it has created.  A new room
  needs an address no earlier room has: \<^verbatim>\<open>parse\<close> numbers its rooms from 1, and the room
  with id \<open>n\<close> is put at address \<open>n\<close>.
\<close>

record scanner =
  grid :: grid
  heap :: heap
  room_counter :: nat
  current_room :: "addr option"
  name_buffer :: "string option"

text \<open>\<^verbatim>\<open>if current_room is None: room_counter += 1; current_room = Room(room_counter)\<close>\<close>

definition open_room :: "scanner \<Rightarrow> scanner \<times> addr" where
  "open_room s =
     (case current_room s of
        Some c \<Rightarrow> (s, c)
      | None \<Rightarrow>
          (let n = room_counter s + 1
           in (s\<lparr>room_counter := n, heap := (heap s)(n := Room (int n)), current_room := Some n\<rparr>, n)))"

text \<open>The check of the cell above, and the merge when the two roots differ.\<close>

definition connect_above :: "nat \<Rightarrow> int \<Rightarrow> int \<Rightarrow> addr \<Rightarrow> scanner \<Rightarrow> error + scanner" where
  "connect_above limit x y cur s =
     (case get_connected_room_above (grid s) x y of
        None \<Rightarrow> Inr s
      | Some room_above \<Rightarrow>
          (case final limit (heap s) room_above of
             Inl e \<Rightarrow> Inl e
           | Inr (h1, final_above) \<Rightarrow>
               (case final limit h1 cur of
                  Inl e \<Rightarrow> Inl e
                | Inr (h2, final_current) \<Rightarrow>
                    if final_above \<noteq> final_current
                    then Inr (s\<lparr>heap := fst (merge_with h2 final_above final_current)\<rparr>)
                    else Inr (s\<lparr>heap := h2\<rparr>))))"

text \<open>\<^verbatim>\<open>if char in CHAIR_CHARS: current_room.final().chairs[char] += 1\<close>\<close>

definition count_chair :: "nat \<Rightarrow> char \<Rightarrow> addr \<Rightarrow> scanner \<Rightarrow> error + scanner" where
  "count_chair limit ch cur s =
     (if ch \<in> CHAIR_CHARS then
        (case final limit (heap s) cur of
           Inl e \<Rightarrow> Inl e
         | Inr (h1, r) \<Rightarrow>
             (case chair_key ch of
                None \<Rightarrow> Inl KeyError
              | Some t \<Rightarrow>
                  Inr (s\<lparr>heap := h1(r := (h1 r)\<lparr>chairs := (chairs (h1 r))(t := chairs (h1 r) t + 1)\<rparr>)\<rparr>)))
      else Inr s)"

text \<open>The \<^verbatim>\<open>(...)\<close> pattern.\<close>

definition track_name :: "nat \<Rightarrow> char \<Rightarrow> addr \<Rightarrow> scanner \<Rightarrow> error + scanner" where
  "track_name limit ch cur s =
     (if ch = CHR ''('' then Inr (s\<lparr>name_buffer := Some []\<rparr>)
      else if ch = CHR '')'' \<and> name_buffer s \<noteq> None then
        (case final limit (heap s) cur of
           Inl e \<Rightarrow> Inl e
         | Inr (h1, r) \<Rightarrow>
             Inr (s\<lparr>heap := h1(r := (h1 r)\<lparr>name := name_buffer s\<rparr>), name_buffer := None\<rparr>))
      else
        (case name_buffer s of
           Some buf \<Rightarrow> Inr (s\<lparr>name_buffer := Some (buf @ [ch])\<rparr>)
         | None \<Rightarrow> Inr s))"

text \<open>The body of the inner loop, for the cell in column \<open>x\<close> of row \<open>y\<close>.\<close>

definition scan_cell :: "nat \<Rightarrow> nat \<Rightarrow> nat \<Rightarrow> scanner \<Rightarrow> error + scanner" where
  "scan_cell limit y x s =
     (let ch = get_char (grid s) (int x) (int y) in
      if is_wall (grid s) (int x) (int y)
      then Inr (s\<lparr>current_room := None, name_buffer := None\<rparr>)
      else
        (case open_room s of (s1, cur) \<Rightarrow>
           (case connect_above limit (int x) (int y) cur s1 of
              Inl e \<Rightarrow> Inl e
            | Inr s2 \<Rightarrow>
                (case set_room (grid s2) (int x) (int y) cur of
                   Inl e \<Rightarrow> Inl e
                 | Inr g \<Rightarrow>
                     (case count_chair limit ch cur (s2\<lparr>grid := g\<rparr>) of
                        Inl e \<Rightarrow> Inl e
                      | Inr s4 \<Rightarrow> track_name limit ch cur s4)))))"

definition scan_row :: "nat \<Rightarrow> nat \<Rightarrow> scanner \<Rightarrow> error + scanner" where
  "scan_row limit y s =
     for_each (scan_cell limit y) [0..<width (grid s)] (s\<lparr>current_room := None, name_buffer := None\<rparr>)"

text \<open>
  The state before the first row.  No room exists yet; the store holds a blank record
  at every address, and \<^verbatim>\<open>parse\<close> reads an address only after it has put a room there.
\<close>

definition init_scanner :: "grid \<Rightarrow> scanner" where
  "init_scanner g =
     \<lparr>grid = g, heap = (\<lambda>_. Room 0), room_counter = 0, current_room = None, name_buffer = None\<rparr>"

definition scan :: "nat \<Rightarrow> string \<Rightarrow> error + scanner" where
  "scan limit text =
     (let g = Grid text in for_each (scan_row limit) [0..<height g] (init_scanner g))"

text \<open>
  \<^verbatim>\<open>parse\<close>: the rooms returned (the records the returned references point to, read
  in the final store) and the lines printed to the error stream.  \<open>limit\<close> is the
  recursion depth available to each call of \<^verbatim>\<open>final\<close>.
\<close>

definition parse :: "nat \<Rightarrow> string \<Rightarrow> error + (room list \<times> string list)" where
  "parse limit text =
     (if height (Grid text) = 0 then Inr ([], [])
      else
        (case scan limit text of
           Inl e \<Rightarrow> Inl e
         | Inr s \<Rightarrow>
             (case extract_unique_rooms limit (grid s) (heap s) of
                Inl e \<Rightarrow> Inl e
              | Inr (h, rooms, err) \<Rightarrow> Inr (map h rooms, err))))"

section \<open>The formatter (formatter.py)\<close>

fun chair_name :: "chair \<Rightarrow> string" where
  "chair_name W = ''W''"
| "chair_name P = ''P''"
| "chair_name S = ''S''"
| "chair_name C = ''C''"

text \<open>\<^verbatim>\<open>sep.join(parts)\<close>\<close>

fun join :: "string \<Rightarrow> string list \<Rightarrow> string" where
  "join sep [] = []"
| "join sep [x] = x"
| "join sep (x # y # ys) = x @ sep @ join sep (y # ys)"

definition format_chair_line :: "(chair \<Rightarrow> int) \<Rightarrow> string" where
  "format_chair_line cs = join '', '' (map (\<lambda>t. chair_name t @ '': '' @ str_int (cs t)) CHAIR_TYPES)"

text \<open>\<^verbatim>\<open>r.name or ""\<close>, the sort key, and the name as an f-string prints it.\<close>

fun name_or_empty :: "room \<Rightarrow> string" where
  "name_or_empty r = (case name r of None \<Rightarrow> [] | Some n \<Rightarrow> n)"

fun str_name :: "string option \<Rightarrow> string" where
  "str_name None = ''None''"
| "str_name (Some n) = n"

text \<open>
  \<^verbatim>\<open>format_output\<close>.  The totals are accumulated room by room and type by type;
  \<^verbatim>\<open>sorted\<close> is a stable sort by the key, ascending in the lexicographic order of the
  character codes, which is what \<open>sort_key\<close> on strings computes.
\<close>

definition add_total :: "room \<Rightarrow> chair \<Rightarrow> (chair \<Rightarrow> int) \<Rightarrow> (chair \<Rightarrow> int)" where
  "add_total r t totals = totals(t := totals t + chairs r t)"

definition format_output :: "room list \<Rightarrow> string" where
  "format_output rooms =
     (let totals = fold (\<lambda>r. fold (add_total r) CHAIR_TYPES) rooms (\<lambda>_. 0);
          sorted_rooms = sort_key name_or_empty rooms;
          ls = [''total:'', format_chair_line totals] @
               concat (map (\<lambda>r. [str_name (name r) @ '':'', format_chair_line (chairs r)]) sorted_rooms)
      in join [CHR 0x0A] ls @ [CHR 0x0A])"

section \<open>Relations and invariants used in the proofs\<close>

text \<open>
  What path compression may do to a store: a room keeps its record, or, if it had a
  link, its link now points at its root.
\<close>

definition compressed :: "heap \<Rightarrow> heap \<Rightarrow> bool" where
  "compressed h h' \<longleftrightarrow>
     (\<forall>x. h' x = h x \<or>
        (\<exists>a. h' x = (h x)\<lparr>merged_into := Some a\<rparr> \<and> root_of h x a \<and> merged_into (h x) \<noteq> None))"

text \<open>
  The invariants of the store during a scan.  \<open>ranked B h\<close>: the links go strictly
  upwards in some rank below \<open>B\<close>, so the links form a forest and no chain is longer
  than \<open>B\<close>.  \<open>closed n h\<close>: links join rooms created so far (addresses 1 to \<open>n\<close>).
  \<open>heap_inv\<close> adds that the room at address \<open>a\<close> has id \<open>a\<close> and that no count is negative.
\<close>

definition ranked :: "nat \<Rightarrow> heap \<Rightarrow> bool" where
  "ranked B h \<longleftrightarrow>
     (\<exists>rank :: addr \<Rightarrow> nat.
        (\<forall>r p. merged_into (h r) = Some p \<longrightarrow> rank r < rank p) \<and> (\<forall>r. rank r < B))"

definition closed :: "nat \<Rightarrow> heap \<Rightarrow> bool" where
  "closed n h \<longleftrightarrow>
     (\<forall>a p. merged_into (h a) = Some p \<longrightarrow> 1 \<le> a \<and> a \<le> n \<and> 1 \<le> p \<and> p \<le> n)"

definition heap_inv :: "nat \<Rightarrow> nat \<Rightarrow> heap \<Rightarrow> bool" where
  "heap_inv B n h \<longleftrightarrow>
     ranked B h \<and> closed n h \<and>
     (\<forall>a. 1 \<le> a \<and> a \<le> n \<longrightarrow> id' (h a) = int a) \<and>
     (\<forall>a t. 0 \<le> chairs (h a) t)"

text \<open>
  The invariant of the scanner state, for a scan of the grid \<open>g0\<close>: the grid keeps
  its text and its shape, the store satisfies \<open>heap_inv\<close>, and every reference held
  (in a cell, or as the current room) is to a room created so far.
\<close>

definition scan_inv :: "grid \<Rightarrow> nat \<Rightarrow> scanner \<Rightarrow> bool" where
  "scan_inv g0 B s \<longleftrightarrow>
     lines (grid s) = lines g0 \<and> height (grid s) = height g0 \<and> width (grid s) = width g0 \<and>
     length (cells (grid s)) = height g0 \<and>
     (\<forall>row\<in>set (cells (grid s)). length row = width g0) \<and>
     heap_inv B (room_counter s) (heap s) \<and>
     (\<forall>row\<in>set (cells (grid s)). \<forall>c. Some c \<in> set row \<longrightarrow> 1 \<le> c \<and> c \<le> room_counter s) \<and>
     (\<forall>c. current_room s = Some c \<longrightarrow> 1 \<le> c \<and> c \<le> room_counter s)"

text \<open>
  Notions used to state what the extraction returns: the rooms assigned to the cells
  in row-major order, a list without its repeated elements (first occurrences kept, in
  order), and the sum of the four counts of a room.
\<close>

definition assigned :: "grid \<Rightarrow> addr list" where
  "assigned g = concat (map (\<lambda>cell. case cell of None \<Rightarrow> [] | Some c \<Rightarrow> [c]) (concat (cells g)))"

definition first_occurrences :: "'a list \<Rightarrow> 'a list" where
  "first_occurrences xs = rev (remdups (rev xs))"

definition total_chairs :: "room \<Rightarrow> int" where
  "total_chairs r = sum_list (map (chairs r) CHAIR_TYPES)"

text \<open>The loop state of the extraction after the cells whose roots are \<open>roots\<close>.\<close>

definition extracted :: "heap \<Rightarrow> addr list \<Rightarrow> int set \<times> addr list \<times> string list" where
  "extracted h roots =
     ((\<lambda>a. id' (h a)) ` set roots,
      filter (\<lambda>a. name (h a) \<noteq> None) (first_occurrences roots),
      map (\<lambda>a. warning_message (id' (h a)) (total_chairs (h a)))
        (filter (\<lambda>a. name (h a) = None \<and> total_chairs (h a) > 0) (first_occurrences roots)))"

text \<open>
  The first half of the body of the inner loop on a floor cell: a room is opened if
  none is open, the check of the cell above is made, and the cell is assigned.
\<close>

definition enter_cell :: "nat \<Rightarrow> nat \<Rightarrow> nat \<Rightarrow> scanner \<Rightarrow> error + (scanner \<times> addr)" where
  "enter_cell limit y x s =
     (case open_room s of (s1, cur) \<Rightarrow>
        (case connect_above limit (int x) (int y) cur s1 of
           Inl e \<Rightarrow> Inl e
         | Inr s2 \<Rightarrow>
             (case set_room (grid s2) (int x) (int y) cur of
                Inl e \<Rightarrow> Inl e
              | Inr g \<Rightarrow> Inr (s2\<lparr>grid := g\<rparr>, cur))))"

text \<open>
  The state of the scan of \<open>text\<close> just before the cell in column \<open>x\<close> of row \<open>y\<close>:
  the rows above have been scanned, and the cells to the left in this row.
\<close>

definition scan_prefix :: "nat \<Rightarrow> string \<Rightarrow> nat \<Rightarrow> nat \<Rightarrow> error + scanner" where
  "scan_prefix limit text y x =
     (case for_each (scan_row limit) [0..<y] (init_scanner (Grid text)) of
        Inl e \<Rightarrow> Inl e
      | Inr s \<Rightarrow> for_each (scan_cell limit y) [0..<x] (s\<lparr>current_room := None, name_buffer := None\<rparr>))"

text \<open>
  Observations of a finished run, for concrete inputs: the root of the room assigned
  to a cell after the scan of a text, and the fields of a room with its counts in
  display order.
\<close>

definition cell_root :: "nat \<Rightarrow> string \<Rightarrow> int \<Rightarrow> int \<Rightarrow> addr option" where
  "cell_root limit text x y =
     (case scan limit text of
        Inl e \<Rightarrow> None
      | Inr s \<Rightarrow>
          (case get_room (grid s) x y of
             None \<Rightarrow> None
           | Some c \<Rightarrow> (case final limit (heap s) c of Inl e \<Rightarrow> None | Inr (h, r) \<Rightarrow> Some r)))"

definition snapshot :: "room \<Rightarrow> int \<times> string option \<times> int list \<times> addr option" where
  "snapshot r = (id' r, name r, map (chairs r) CHAIR_TYPES, merged_into r)"

text \<open>
  The rooms a call of \<^verbatim>\<open>final\<close> on \<open>r\<close> visits: \<open>r\<close> itself and every room reached from it
  by following links.
\<close>

inductive on_path :: "heap \<Rightarrow> addr \<Rightarrow> addr \<Rightarrow> bool" for h :: heap where
  path_self: "on_path h r r"
| path_step: "merged_into (h r) = Some p \<Longrightarrow> on_path h p x \<Longrightarrow> on_path h r x"

code_pred on_path .

text \<open>
  A plan of \<open>n + 1\<close> compartments side by side, one cell wide and separated by walls,
  above a corridor that all of them open onto.
\<close>

definition comb :: "nat \<Rightarrow> string" where
  "comb n = concat (replicate n '' |'') @ '' '' @ [CHR 0x0A] @ replicate (2 * n + 1) CHR '' ''"

text \<open>
  The first line of that plan, and what the scan of it goes through.  \<open>comb_links n k\<close>
  are the links after \<open>k\<close> cells of the second row: the compartments \<open>1\<close> to
  \<open>(k + 1) div 2\<close> form one chain, each linked to its right neighbour, and the room of
  the corridor (address \<open>n + 2\<close>) is linked into it.  \<open>comb_row0 n k\<close> and \<open>comb_row1 n k\<close>
  describe the scanner before column \<open>k\<close> of the first and of the second row.
\<close>

definition comb_top :: "nat \<Rightarrow> string" where
  "comb_top n = concat (replicate n '' |'') @ '' ''"

definition comb_links :: "nat \<Rightarrow> nat \<Rightarrow> addr \<Rightarrow> addr option" where
  "comb_links n k a =
     (if 1 \<le> a \<and> a < (k + 1) div 2 then Some (a + 1)
      else if a = n + 2 \<and> 0 < k then Some (max 1 ((k + 1) div 2 - 1))
      else None)"

definition comb_grid :: "nat \<Rightarrow> grid \<Rightarrow> bool" where
  "comb_grid n g \<longleftrightarrow>
     lines g = [comb_top n, replicate (2 * n + 1) CHR '' ''] \<and> height g = 2 \<and>
     width g = 2 * n + 1 \<and> length (cells g) = 2 \<and>
     length (cells g ! 0) = 2 * n + 1 \<and> length (cells g ! 1) = 2 * n + 1"

definition comb_row0 :: "nat \<Rightarrow> nat \<Rightarrow> scanner \<Rightarrow> bool" where
  "comb_row0 n k s \<longleftrightarrow>
     comb_grid n (grid s) \<and>
     (\<forall>x<2 * n + 1. cells (grid s) ! 0 ! x = (if even x \<and> x < k then Some (x div 2 + 1) else None)) \<and>
     room_counter s = (k + 1) div 2 \<and>
     current_room s = (if odd k then Some ((k + 1) div 2) else None) \<and>
     name_buffer s = None \<and>
     (\<forall>a. merged_into (heap s a) = None)"

definition comb_row1 :: "nat \<Rightarrow> nat \<Rightarrow> scanner \<Rightarrow> bool" where
  "comb_row1 n k s \<longleftrightarrow>
     comb_grid n (grid s) \<and>
     (\<forall>x<2 * n + 1. cells (grid s) ! 0 ! x = (if even x then Some (x div 2 + 1) else None)) \<and>
     room_counter s = (if k = 0 then n + 1 else n + 2) \<and>
     current_room s = (if k = 0 then None else Some (n + 2)) \<and>
     name_buffer s = None \<and>
     (\<forall>a. merged_into (heap s a) = comb_links n k a)"

section \<open>Properties of the store operations\<close>

lemma root_of_is_root: "root_of h r a \<Longrightarrow> merged_into (h a) = None"
  by (induction rule: root_of.induct) auto

lemma root_of_fun: "root_of h r a \<Longrightarrow> root_of h r b \<Longrightarrow> a = b"
proof (induction arbitrary: b rule: root_of.induct)
  case (root_self r)
  from root_self.prems root_self.hyps show ?case
    by (cases rule: root_of.cases) auto
next
  case (root_step r p a)
  from root_step.prems root_step.hyps(1) have "root_of h p b"
    by (cases rule: root_of.cases) auto
  then show ?case by (rule root_step.IH)
qed

lemma compressed_refl: "compressed h h"
  by (simp add: compressed_def)

lemma compressedD:
  "compressed h h' \<Longrightarrow> h' x = h x \<or>
     (\<exists>a. h' x = (h x)\<lparr>merged_into := Some a\<rparr> \<and> root_of h x a \<and> merged_into (h x) \<noteq> None)"
  by (simp add: compressed_def)

lemma compressed_root_unchanged:
  "compressed h h' \<Longrightarrow> merged_into (h x) = None \<Longrightarrow> h' x = h x"
  using compressedD [of h h' x] by auto

lemma compressed_root_of1:
  assumes c: "compressed h h'" and r: "root_of h s b"
  shows "root_of h' s b"
  using r
proof (induction rule: root_of.induct)
  case (root_self r)
  with c have "h' r = h r" by (simp add: compressed_root_unchanged)
  with root_self show ?case by (simp add: root_of.root_self)
next
  case (root_step r p a)
  from c have "h' r = h r \<or>
      (\<exists>a'. h' r = (h r)\<lparr>merged_into := Some a'\<rparr> \<and> root_of h r a')"
    by (auto simp: compressed_def)
  then show ?case
  proof
    assume "h' r = h r"
    with root_step show ?thesis by (auto intro: root_of.root_step)
  next
    assume "\<exists>a'. h' r = (h r)\<lparr>merged_into := Some a'\<rparr> \<and> root_of h r a'"
    then obtain a' where a': "h' r = (h r)\<lparr>merged_into := Some a'\<rparr>" "root_of h r a'"
      by blast
    have "root_of h r a" using root_step.hyps by (rule root_of.root_step)
    with a'(2) have "a' = a" by (rule root_of_fun)
    have "merged_into (h a) = None" using root_step.hyps(2) by (rule root_of_is_root)
    with c have "h' a = h a" by (simp add: compressed_root_unchanged)
    with \<open>merged_into (h a) = None\<close> have "root_of h' a a" by (simp add: root_of.root_self)
    with a'(1) \<open>a' = a\<close> show ?thesis by (auto intro: root_of.root_step)
  qed
qed

lemma compressed_root_of2:
  assumes c: "compressed h h'" and r: "root_of h' s b"
  shows "root_of h s b"
  using r
proof (induction rule: root_of.induct)
  case (root_self r)
  with compressedD [OF c, of r] have "merged_into (h r) = None" by auto
  then show ?case by (rule root_of.root_self)
next
  case (root_step r p a)
  from c have "h' r = h r \<or>
      (\<exists>a'. h' r = (h r)\<lparr>merged_into := Some a'\<rparr> \<and> root_of h r a')"
    by (auto simp: compressed_def)
  then show ?case
  proof
    assume "h' r = h r"
    with root_step show ?thesis by (auto intro: root_of.root_step)
  next
    assume "\<exists>a'. h' r = (h r)\<lparr>merged_into := Some a'\<rparr> \<and> root_of h r a'"
    then obtain a' where a': "h' r = (h r)\<lparr>merged_into := Some a'\<rparr>" "root_of h r a'"
      by blast
    with root_step.hyps(1) have "p = a'" by simp
    have "merged_into (h a') = None" using a'(2) by (rule root_of_is_root)
    then have "root_of h a' a'" by (rule root_of.root_self)
    with root_step.IH \<open>p = a'\<close> have "a = a'" by (auto dest: root_of_fun)
    with a'(2) show ?thesis by simp
  qed
qed

lemma compressed_root_of: "compressed h h' \<Longrightarrow> root_of h' s b \<longleftrightarrow> root_of h s b"
  by (blast intro: compressed_root_of1 compressed_root_of2)

lemma compressed_trans:
  assumes "compressed h h1" and "compressed h1 h2"
  shows "compressed h h2"
  unfolding compressed_def
proof
  fix x
  from assms(2) have "h2 x = h1 x \<or>
      (\<exists>a. h2 x = (h1 x)\<lparr>merged_into := Some a\<rparr> \<and> root_of h1 x a \<and> merged_into (h1 x) \<noteq> None)"
    by (simp add: compressed_def)
  moreover from assms(1) have "h1 x = h x \<or>
      (\<exists>a. h1 x = (h x)\<lparr>merged_into := Some a\<rparr> \<and> root_of h x a \<and> merged_into (h x) \<noteq> None)"
    by (simp add: compressed_def)
  ultimately show "h2 x = h x \<or>
      (\<exists>a. h2 x = (h x)\<lparr>merged_into := Some a\<rparr> \<and> root_of h x a \<and> merged_into (h x) \<noteq> None)"
    using compressed_root_of [OF assms(1)] by auto
qed

lemma final_compresses:
  "final n h r = Inr (h', a) \<Longrightarrow> root_of h r a \<and> compressed h h'"
proof (induction n arbitrary: h r h' a)
  case 0
  then show ?case by simp
next
  case (Suc n)
  show ?case
  proof (cases "merged_into (h r)")
    case None
    with Suc.prems show ?thesis by (auto simp: compressed_refl intro: root_of.root_self)
  next
    case (Some p)
    with Suc.prems obtain h1 where f: "final n h p = Inr (h1, a)"
      and h': "h' = h1(r := (h1 r)\<lparr>merged_into := Some a\<rparr>)"
      by (auto split: sum.splits)
    from Suc.IH [OF f] have ra: "root_of h p a" and c: "compressed h h1" by simp_all
    from Some ra have rr: "root_of h r a" by (rule root_of.root_step)
    have "compressed h h'"
      unfolding compressed_def
    proof
      fix x
      show "h' x = h x \<or>
        (\<exists>a. h' x = (h x)\<lparr>merged_into := Some a\<rparr> \<and> root_of h x a \<and> merged_into (h x) \<noteq> None)"
      proof (cases "x = r")
        case True
        from c have "h1 r = h r \<or> (\<exists>b. h1 r = (h r)\<lparr>merged_into := Some b\<rparr>)"
          by (auto simp: compressed_def)
        then have "h' r = (h r)\<lparr>merged_into := Some a\<rparr>" using h' by auto
        with True rr Some show ?thesis by auto
      next
        case False
        with h' c show ?thesis by (simp add: compressed_def)
      qed
    qed
    with rr show ?thesis by simp
  qed
qed

lemma compressed_fields:
  "compressed h h' \<Longrightarrow> id' (h' x) = id' (h x) \<and> name (h' x) = name (h x) \<and> chairs (h' x) = chairs (h x)"
  using compressedD [of h h' x] by auto

lemma final_root: "merged_into (h r) = None \<Longrightarrow> final (Suc n) h r = Inr (h, r)"
  by simp

lemma final_fuel_mono:
  "final n h r = Inr res \<Longrightarrow> n \<le> m \<Longrightarrow> final m h r = Inr res"
proof (induction n arbitrary: m h r res)
  case 0
  then show ?case by simp
next
  case (Suc n)
  from Suc.prems(2) obtain m' where m: "m = Suc m'" and le: "n \<le> m'"
    by (cases m) auto
  show ?case
  proof (cases "merged_into (h r)")
    case None
    with Suc.prems m show ?thesis by simp
  next
    case (Some p)
    with Suc.prems(1) obtain res1 where f: "final n h p = Inr res1"
      by (auto split: sum.splits)
    from Suc.IH [OF f le] have "final m' h p = Inr res1" .
    with f Some Suc.prems(1) m show ?thesis by simp
  qed
qed

lemma root_of_final:
  "root_of h r a \<Longrightarrow> \<exists>n. \<forall>m\<ge>n. \<exists>h1. final m h r = Inr (h1, a)"
proof (induction rule: root_of.induct)
  case (root_self r)
  have "\<forall>m\<ge>Suc 0. \<exists>h1. final m h r = Inr (h1, r)"
  proof (intro allI impI)
    fix m assume "Suc 0 \<le> m"
    then obtain k where "m = Suc k" by (cases m) auto
    with root_self show "\<exists>h1. final m h r = Inr (h1, r)" by simp
  qed
  then show ?case ..
next
  case (root_step r p a)
  then obtain n where n: "\<forall>m\<ge>n. \<exists>h1. final m h p = Inr (h1, a)" by blast
  have "\<forall>m\<ge>Suc n. \<exists>h1. final m h r = Inr (h1, a)"
  proof (intro allI impI)
    fix m assume "Suc n \<le> m"
    then obtain k where k: "m = Suc k" "n \<le> k" by (cases m) auto
    with n obtain h1 where "final k h p = Inr (h1, a)" by blast
    with k root_step.hyps(1) show "\<exists>h1. final m h r = Inr (h1, a)" by simp
  qed
  then show ?case ..
qed

lemma fold_add_chair:
  "a \<noteq> b \<Longrightarrow> fold (add_chair a b) CHAIR_TYPES h =
     h(a := (h a)\<lparr>chairs := (\<lambda>t. chairs (h a) t + chairs (h b) t)\<rparr>)"
proof -
  assume ab: "a \<noteq> b"
  have "(chairs (h a))(W := chairs (h a) W + chairs (h b) W, P := chairs (h a) P + chairs (h b) P,
          S := chairs (h a) S + chairs (h b) S, C := chairs (h a) C + chairs (h b) C)
        = (\<lambda>t. chairs (h a) t + chairs (h b) t)"
  proof
    fix t show "((chairs (h a))(W := chairs (h a) W + chairs (h b) W, P := chairs (h a) P + chairs (h b) P,
          S := chairs (h a) S + chairs (h b) S, C := chairs (h a) C + chairs (h b) C)) t
        = chairs (h a) t + chairs (h b) t"
      by (cases t) simp_all
  qed
  with ab show ?thesis
    by (simp add: CHAIR_TYPES_def add_chair_def)
qed

lemma merge_with_distinct:
  "a \<noteq> b \<Longrightarrow> merge_with h a b =
     (h(a := (h a)\<lparr>chairs := (\<lambda>t. chairs (h a) t + chairs (h b) t),
                     name := (if truthy (name (h b)) \<and> \<not> truthy (name (h a))
                              then name (h b) else name (h a))\<rparr>,
        b := (h b)\<lparr>merged_into := Some a\<rparr>), a)"
  by (simp add: merge_with_def fold_add_chair Let_def)

lemma finals_compresses: "finals n h rs = Inr h' \<Longrightarrow> compressed h h'"
proof (induction rs arbitrary: h)
  case Nil
  then show ?case by (simp add: compressed_refl)
next
  case (Cons r rs)
  then obtain h1 a where f: "final n h r = Inr (h1, a)" and g: "finals n h1 rs = Inr h'"
    by (auto split: sum.splits)
  from f have "compressed h h1" by (simp add: final_compresses)
  moreover from g have "compressed h1 h'" by (rule Cons.IH)
  ultimately show ?case by (rule compressed_trans)
qed

lemma merge_with_snd [simp]: "snd (merge_with h a b) = a"
  by (simp add: merge_with_def Let_def)

lemma final_again:
  assumes "final n h r = Inr (h1, a)"
  shows "final n h1 a = Inr (h1, a)" and "final n h1 r = Inr (h1, a)"
proof -
  from assms have ra: "root_of h r a" and c: "compressed h h1"
    by (simp_all add: final_compresses)
  from ra have "merged_into (h a) = None" by (rule root_of_is_root)
  with c have a1: "merged_into (h1 a) = None" by (simp add: compressed_root_unchanged)
  from assms obtain k where k: "n = Suc k" by (cases n) auto
  with a1 show fa: "final n h1 a = Inr (h1, a)" by simp
  show "final n h1 r = Inr (h1, a)"
  proof (cases "merged_into (h r)")
    case None
    with assms k have "h1 = h" "a = r" by auto
    with fa show ?thesis by simp
  next
    case (Some p)
    with assms k obtain g where g: "final k h p = Inr (g, a)"
      and h1: "h1 = g(r := (g r)\<lparr>merged_into := Some a\<rparr>)"
      by (auto split: sum.splits)
    from g obtain j where j: "k = Suc j" by (cases k) auto
    from h1 have "merged_into (h1 r) = Some a" by simp
    moreover from a1 j have "final k h1 a = Inr (h1, a)" by simp
    moreover from h1 have "h1(r := (h1 r)\<lparr>merged_into := Some a\<rparr>) = h1" by auto
    ultimately show ?thesis using k by simp
  qed
qed

lemma merge_with_name:
  "a \<noteq> b \<Longrightarrow> name (fst (merge_with h a b) a) =
     (if truthy (name (h b)) \<and> \<not> truthy (name (h a)) then name (h b) else name (h a))"
  by (simp add: merge_with_distinct)

section \<open>Claims about rooms\<close>

text \<open>
  C1.  The claim: on two distinct roots, \<^verbatim>\<open>union(root_a, root_b)\<close> lets the survivor adopt
  the absorbed root's name exactly when the survivor's name is absent and the absorbed
  root's name is present, the empty string counting as present.  \<^verbatim>\<open>merge_with\<close> tests
  the two names for truth instead (lemma \<open>merge_with_name\<close>), and the empty string is
  false: an absorbed room named \<^verbatim>\<open>""\<close> loses its name to an unnamed survivor, and a
  survivor named \<^verbatim>\<open>""\<close> has its name replaced.  The theorem evaluates both cases.
\<close>

theorem merge_with_empty_name:
  "name (fst (merge_with ((\<lambda>_. Room 0)(1 := Room 1, 2 := (Room 2)\<lparr>name := Some []\<rparr>)) 1 2) 1) = None \<and>
   name (fst (merge_with ((\<lambda>_. Room 0)(1 := (Room 1)\<lparr>name := Some []\<rparr>,
                                       2 := (Room 2)\<lparr>name := Some ''kitchen''\<rparr>)) 1 2) 1) = Some ''kitchen''"
  by (simp add: merge_with_distinct Room_def)

text \<open>
  C3.  For distinct roots \<open>a\<close> and \<open>b\<close>, \<^verbatim>\<open>a.merge_with(b)\<close> returns \<open>a\<close>, links \<open>b\<close> to
  \<open>a\<close>, leaves \<open>a\<close> a root, and makes each chair count of \<open>a\<close> the sum of the two
  counts before the merge; calls of \<^verbatim>\<open>final\<close> on any rooms before the merge (\<open>before\<close>) and
  after it (\<open>after\<close>) leave these counts as they are.
\<close>

theorem merge_with_sums:
  assumes "a \<noteq> b" and "merged_into (h a) = None" and "merged_into (h b) = None"
    and "finals n h before = Inr h1" and "merge_with h1 a b = (h2, ret)"
    and "finals m h2 after = Inr h3"
  shows "ret = a \<and> merged_into (h2 b) = Some a \<and> merged_into (h2 a) = None \<and>
         (\<forall>t. chairs (h2 a) t = chairs (h a) t + chairs (h b) t) \<and>
         (\<forall>t. chairs (h3 a) t = chairs (h a) t + chairs (h b) t)"
proof -
  from assms(4) have c1: "compressed h h1" by (rule finals_compresses)
  from assms(6) have c2: "compressed h2 h3" by (rule finals_compresses)
  from c1 assms(2,3) have eq: "h1 a = h a" "h1 b = h b"
    by (simp_all add: compressed_root_unchanged)
  from assms(1,5) have h2: "h2 = h1(a := (h1 a)\<lparr>chairs := (\<lambda>t. chairs (h1 a) t + chairs (h1 b) t),
                     name := (if truthy (name (h1 b)) \<and> \<not> truthy (name (h1 a))
                              then name (h1 b) else name (h1 a))\<rparr>,
        b := (h1 b)\<lparr>merged_into := Some a\<rparr>)" and ret: "ret = a"
    using merge_with_distinct [OF assms(1), of h1] by auto
  from h2 assms(1) eq have s2: "\<forall>t. chairs (h2 a) t = chairs (h a) t + chairs (h b) t"
    by simp
  moreover from c2 have "chairs (h3 a) = chairs (h2 a)" by (simp add: compressed_fields)
  moreover from h2 assms(1,2) eq have "merged_into (h2 b) = Some a" "merged_into (h2 a) = None"
    by simp_all
  ultimately show ?thesis using ret by simp
qed

theorem merge_with_sums_witness:
  "(let h = (\<lambda>_. Room 0)(1 := (Room 1)\<lparr>chairs := (\<lambda>_. 0)(W := 2, S := 1)\<rparr>,
                            2 := (Room 2)\<lparr>chairs := (\<lambda>_. 0)(W := 1, P := 3)\<rparr>);
        h2 = fst (merge_with h 1 2)
    in finals 2 h [1, 2] = Inr h \<and> finals 2 h2 [2, 1, 2] = Inr h2 \<and>
       snd (merge_with h 1 2) = 1 \<and> merged_into (h2 2) = Some 1 \<and> merged_into (h2 1) = None \<and>
       map (chairs (h2 1)) CHAIR_TYPES = [3, 3, 1, 0])"
proof -
  let ?h = "(\<lambda>_. Room 0)(1 := (Room 1)\<lparr>chairs := (\<lambda>_. 0)(W := 2, S := 1)\<rparr>,
                            2 := (Room 2)\<lparr>chairs := (\<lambda>_. 0)(W := 1, P := 3)\<rparr>) :: heap"
  let ?h2 = "fst (merge_with ?h 1 2)"
  have a: "(1::nat) \<noteq> 2" by simp
  have r1: "merged_into (?h 1) = None" and r2: "merged_into (?h 2) = None"
    by (simp_all add: Room_def)
  have f1: "finals 2 ?h [1, 2] = Inr ?h"
    by (simp add: numeral_2_eq_2 Room_def)
  have m: "merge_with ?h 1 2 = (?h2, 1)"
    by (simp add: prod_eq_iff)
  have l2: "merged_into (?h2 2) = Some 1" "merged_into (?h2 1) = None"
    by (simp_all add: merge_with_distinct Room_def)
  then have "?h2(2 := (?h2 2)\<lparr>merged_into := Some 1\<rparr>) = ?h2" by auto
  with l2 have f2: "finals 2 ?h2 [2, 1, 2] = Inr ?h2"
    by (simp add: numeral_2_eq_2)
  from merge_with_sums [OF a r1 r2 f1 m f2]
  have c: "\<forall>t. chairs (?h2 1) t = chairs (?h 1) t + chairs (?h 2) t" by blast
  have "map (chairs (?h2 1)) CHAIR_TYPES = [3, 3, 1, 0]"
    unfolding CHAIR_TYPES_def list.map c [rule_format] by (simp add: Room_def)
  moreover have "snd (merge_with ?h 1 2) = 1" by simp
  ultimately show ?thesis
    unfolding Let_def using f1 f2 l2 by blast
qed

text \<open>
  C5.  For every room \<open>r\<close> of a forest (its links end at a root \<open>a\<close>), \<^verbatim>\<open>final\<close> returns
  whenever the recursion depth allowed is large enough, and then \<^verbatim>\<open>r.final()\<close> is \<open>a\<close>,
  \<^verbatim>\<open>final\<close> of that result is \<open>a\<close> again, a second \<^verbatim>\<open>r.final()\<close> is still \<open>a\<close>, and \<^verbatim>\<open>final\<close> on
  the root \<open>a\<close> returns \<open>a\<close> itself and leaves the store as it is.
\<close>

theorem final_idempotent:
  assumes "root_of h r a"
  shows "\<exists>k. \<forall>m\<ge>k. \<exists>g. final m h r = Inr (g, a) \<and> final m g a = Inr (g, a) \<and>
           final m g r = Inr (g, a) \<and> final m h a = Inr (h, a)"
proof -
  from assms obtain k where k: "\<forall>m\<ge>k. \<exists>g. final m h r = Inr (g, a)"
    using root_of_final by blast
  from assms have ra: "merged_into (h a) = None" by (rule root_of_is_root)
  have "\<forall>m\<ge>k. \<exists>g. final m h r = Inr (g, a) \<and> final m g a = Inr (g, a) \<and>
           final m g r = Inr (g, a) \<and> final m h a = Inr (h, a)"
  proof (intro allI impI)
    fix m assume "k \<le> m"
    with k obtain g where g: "final m h r = Inr (g, a)" by blast
    then obtain j where "m = Suc j" by (cases m) auto
    with ra have "final m h a = Inr (h, a)" by simp
    with g final_again [OF g]
    show "\<exists>g. final m h r = Inr (g, a) \<and> final m g a = Inr (g, a) \<and>
           final m g r = Inr (g, a) \<and> final m h a = Inr (h, a)"
      by blast
  qed
  then show ?thesis ..
qed

theorem final_idempotent_witness:
  "root_of ((\<lambda>_. Room 0)(1 := Room 1, 2 := (Room 2)\<lparr>merged_into := Some 1\<rparr>,
                             3 := (Room 3)\<lparr>merged_into := Some 2\<rparr>)) 3 1 \<and>
   (\<exists>k. \<forall>m\<ge>k. \<exists>g.
      final m ((\<lambda>_. Room 0)(1 := Room 1, 2 := (Room 2)\<lparr>merged_into := Some 1\<rparr>,
                                3 := (Room 3)\<lparr>merged_into := Some 2\<rparr>)) 3 = Inr (g, 1) \<and>
      final m g 1 = Inr (g, 1) \<and> final m g 3 = Inr (g, 1) \<and>
      final m ((\<lambda>_. Room 0)(1 := Room 1, 2 := (Room 2)\<lparr>merged_into := Some 1\<rparr>,
                                3 := (Room 3)\<lparr>merged_into := Some 2\<rparr>)) 1 =
        Inr ((\<lambda>_. Room 0)(1 := Room 1, 2 := (Room 2)\<lparr>merged_into := Some 1\<rparr>,
                                3 := (Room 3)\<lparr>merged_into := Some 2\<rparr>), 1))"
proof -
  let ?h = "(\<lambda>_. Room 0)(1 := Room 1, 2 := (Room 2)\<lparr>merged_into := Some 1\<rparr>,
                             3 := (Room 3)\<lparr>merged_into := Some (2::nat)\<rparr>)"
  have 1: "root_of ?h 1 1" by (rule root_of.root_self) (simp add: Room_def)
  have 2: "root_of ?h 2 1" by (rule root_of.root_step [OF _ 1]) simp
  have 3: "root_of ?h 3 1" by (rule root_of.root_step [OF _ 2]) simp
  from 3 final_idempotent [OF 3] show ?thesis by blast
qed

lemma on_path_cases:
  "on_path h r x \<longleftrightarrow> x = r \<or> (\<exists>p. merged_into (h r) = Some p \<and> on_path h p x)"
  by (auto intro: on_path.intros elim: on_path.cases)

lemma final_relinks:
  "final n h r = Inr (h', a) \<Longrightarrow>
     h' x = (if on_path h r x \<and> merged_into (h x) \<noteq> None
             then (h x)\<lparr>merged_into := Some a\<rparr> else h x)"
proof (induction n arbitrary: h r h' a x)
  case 0
  then show ?case by simp
next
  case (Suc n)
  show ?case
  proof (cases "merged_into (h r)")
    case None
    with Suc.prems have "h' = h" by simp
    moreover from None have "on_path h r x \<longleftrightarrow> x = r" by (subst on_path_cases) simp
    ultimately show ?thesis using None by auto
  next
    case (Some p)
    with Suc.prems obtain h1 where f: "final n h p = Inr (h1, a)"
      and h': "h' = h1(r := (h1 r)\<lparr>merged_into := Some a\<rparr>)"
      by (auto split: sum.splits)
    note ih = Suc.IH [OF f]
    from Some have path: "on_path h r x \<longleftrightarrow> x = r \<or> on_path h p x"
      by (subst on_path_cases) simp
    show ?thesis
    proof (cases "x = r")
      case True
      from ih [of r] have "(h1 r)\<lparr>merged_into := Some a\<rparr> = (h r)\<lparr>merged_into := Some a\<rparr>"
        by (simp split: if_splits)
      with True h' Some show ?thesis by (simp add: on_path.path_self)
    next
      case False
      with h' have "h' x = h1 x" by simp
      with ih [of x] path False show ?thesis by simp
    qed
  qed
qed

text \<open>
  C6.  With \<open>c\<close> merged into \<open>b\<close> and then \<open>b\<close> into the root \<open>a\<close>, \<^verbatim>\<open>c.final()\<close> and
  \<^verbatim>\<open>b.final()\<close> both return the room \<open>a\<close> itself, and \<^verbatim>\<open>c.final()\<close> has linked \<open>c\<close> to \<open>a\<close>
  directly.  In any store, a call of \<^verbatim>\<open>final\<close> on \<open>r\<close> that returns the root \<open>x\<close> changes no
  room's ultimate root, and it changes the store in exactly one way: every room
  visited on the way from \<open>r\<close> that had a link is now linked to \<open>x\<close> directly, and every
  other room, and every other field, is as before.
\<close>

theorem chain_compression:
  "(a \<noteq> b \<and> b \<noteq> c \<and> a \<noteq> c \<and> merged_into (h a) = None \<and>
    merge_with h b c = (h1, r1) \<and> merge_with h1 a b = (h2, r2) \<and> 3 \<le> m \<longrightarrow>
      (\<exists>h3. final m h2 c = Inr (h3, a) \<and> merged_into (h3 c) = Some a \<and>
        final m h3 b = Inr (h3, a) \<and> final m h3 a = Inr (h3, a))) \<and>
   (final k g r = Inr (g', x) \<longrightarrow>
      (\<forall>s t. root_of g' s t \<longleftrightarrow> root_of g s t) \<and>
      (\<forall>v. g' v = (if on_path g r v \<and> merged_into (g v) \<noteq> None
                    then (g v)\<lparr>merged_into := Some x\<rparr> else g v)))"
proof (intro conjI impI)
  assume A: "a \<noteq> b \<and> b \<noteq> c \<and> a \<noteq> c \<and> merged_into (h a) = None \<and>
    merge_with h b c = (h1, r1) \<and> merge_with h1 a b = (h2, r2) \<and> 3 \<le> m"
  then obtain n where m: "m = Suc (Suc (Suc n))"
    by (cases m rule: nat.exhaust; simp; rename_tac m1; case_tac m1; simp; rename_tac m2; case_tac m2; simp)
  from A have h1: "merged_into (h1 c) = Some b" "merged_into (h1 a) = None"
    by (auto simp: merge_with_distinct)
  from A h1 have h2: "merged_into (h2 c) = Some b" "merged_into (h2 b) = Some a" "merged_into (h2 a) = None"
    by (auto simp: merge_with_distinct)
  define h3 where "h3 = h2(c := (h2 c)\<lparr>merged_into := Some a\<rparr>)"
  from A h2 have b3: "h2(b := (h2 b)\<lparr>merged_into := Some a\<rparr>) = h2" by auto
  from A h2 b3 have f: "final m h2 c = Inr (h3, a)"
    by (simp add: h3_def m)
  from A h2 have l3: "merged_into (h3 c) = Some a" "merged_into (h3 b) = Some a" "merged_into (h3 a) = None"
    by (simp_all add: h3_def)
  then have "h3(b := (h3 b)\<lparr>merged_into := Some a\<rparr>) = h3" by auto
  with l3 have "final m h3 b = Inr (h3, a)" "final m h3 a = Inr (h3, a)"
    by (simp_all add: m)
  with f l3 show "\<exists>h3. final m h2 c = Inr (h3, a) \<and> merged_into (h3 c) = Some a \<and>
        final m h3 b = Inr (h3, a) \<and> final m h3 a = Inr (h3, a)"
    by blast
next
  assume "final k g r = Inr (g', x)"
  then show "\<forall>s t. root_of g' s t \<longleftrightarrow> root_of g s t"
    by (simp add: final_compresses compressed_root_of)
next
  assume "final k g r = Inr (g', x)"
  then show "\<forall>v. g' v = (if on_path g r v \<and> merged_into (g v) \<noteq> None
                    then (g v)\<lparr>merged_into := Some x\<rparr> else g v)"
    by (intro allI final_relinks)
qed

theorem chain_compression_witness:
  "(let h = (\<lambda>_. Room 0)(1 := Room 1, 2 := Room 2, 3 := Room 3);
        h1 = fst (merge_with h 2 3); h2 = fst (merge_with h1 1 2)
    in snd (merge_with h 2 3) = 2 \<and> snd (merge_with h1 1 2) = 1 \<and> merged_into (h 1) = None \<and> (\<exists>h3.
         final 3 h2 3 = Inr (h3, 1) \<and> merged_into (h3 3) = Some 1 \<and>
         final 3 h3 2 = Inr (h3, 1) \<and> final 3 h3 1 = Inr (h3, 1) \<and>
         (\<forall>s t. root_of h3 s t \<longleftrightarrow> root_of h2 s t))) \<and>
   (let g = (\<lambda>_. Room 0)(1 := Room 1, 2 := (Room 2)\<lparr>merged_into := Some 1\<rparr>,
                           3 := (Room 3)\<lparr>merged_into := Some 2\<rparr>,
                           4 := (Room 4)\<lparr>merged_into := Some 3\<rparr>,
                           5 := (Room 5)\<lparr>merged_into := Some 2\<rparr>)
    in \<exists>g'. final 4 g 4 = Inr (g', 1) \<and>
         g' 4 = (Room 4)\<lparr>merged_into := Some 1\<rparr> \<and> g' 3 = (Room 3)\<lparr>merged_into := Some 1\<rparr> \<and>
         g' 2 = (Room 2)\<lparr>merged_into := Some 1\<rparr> \<and> g' 1 = Room 1 \<and>
         g' 5 = (Room 5)\<lparr>merged_into := Some 2\<rparr> \<and>
         (\<forall>s t. root_of g' s t \<longleftrightarrow> root_of g s t))"
proof -
  let ?h = "(\<lambda>_. Room 0)(1 := Room 1, 2 := Room 2, 3 := Room 3) :: heap"
  let ?h1 = "fst (merge_with ?h 2 3)"
  let ?h2 = "fst (merge_with ?h1 1 2)"
  let ?g = "(\<lambda>_. Room 0)(1 := Room 1, 2 := (Room 2)\<lparr>merged_into := Some 1\<rparr>,
                           3 := (Room 3)\<lparr>merged_into := Some 2\<rparr>,
                           4 := (Room 4)\<lparr>merged_into := Some 3\<rparr>,
                           5 := (Room 5)\<lparr>merged_into := Some (2::nat)\<rparr>) :: heap"
  have pre: "(1::nat) \<noteq> 2 \<and> (2::nat) \<noteq> 3 \<and> (1::nat) \<noteq> 3 \<and> merged_into (?h 1) = None \<and>
      merge_with ?h 2 3 = (?h1, 2) \<and> merge_with ?h1 1 2 = (?h2, 1)"
    by (simp add: prod_eq_iff Room_def)
  have "(3::nat) \<le> 3" by simp
  with chain_compression [of 1 2 3 ?h ?h1 2 ?h2 1 3] pre
  obtain h3 where h3: "final 3 ?h2 3 = Inr (h3, 1)" "merged_into (h3 3) = Some 1"
      "final 3 h3 2 = Inr (h3, 1)" "final 3 h3 1 = Inr (h3, 1)"
    by blast
  from chain_compression [of 1 2 3 ?h ?h1 2 ?h2 1 3 3 ?h2 3 h3 1] h3(1)
  have "\<forall>s t. root_of h3 s t \<longleftrightarrow> root_of ?h2 s t" by blast
  moreover have "snd (merge_with ?h 2 3) = 2" "snd (merge_with ?h1 1 2) = 1" by simp_all
  moreover from pre have "merged_into (?h 1) = None" by blast
  ultimately have first: "snd (merge_with ?h 2 3) = 2 \<and> snd (merge_with ?h1 1 2) = 1 \<and>
      merged_into (?h 1) = None \<and> (\<exists>h3.
         final 3 ?h2 3 = Inr (h3, 1) \<and> merged_into (h3 3) = Some 1 \<and>
         final 3 h3 2 = Inr (h3, 1) \<and> final 3 h3 1 = Inr (h3, 1) \<and>
         (\<forall>s t. root_of h3 s t \<longleftrightarrow> root_of ?h2 s t))" using h3 by blast
  have p4: "on_path ?g 4 4" by (rule on_path.path_self)
  have p3: "on_path ?g 4 3" by (rule on_path.path_step [of _ _ 3]) (simp_all add: on_path.path_self)
  have p2: "on_path ?g 4 2"
    by (rule on_path.path_step [of _ _ 3], simp, rule on_path.path_step [of _ _ 2], simp,
        rule on_path.path_self)
  have n5: "\<not> on_path ?g 4 5"
  proof
    assume "on_path ?g 4 5"
    then have "on_path ?g 3 5" by (subst (asm) on_path_cases) simp
    then have "on_path ?g 2 5" by (subst (asm) on_path_cases) simp
    then have "on_path ?g 1 5" by (subst (asm) on_path_cases) simp
    then show False by (subst (asm) on_path_cases) (simp add: Room_def)
  qed
  have "\<exists>g'. final 4 ?g 4 = Inr (g', 1)"
    by (simp add: eval_nat_numeral Room_def)
  then obtain g' where f: "final 4 ?g 4 = Inr (g', 1)" by blast
  note t = chain_compression [of 1 2 3 ?h ?h1 2 ?h2 1 3 4 ?g 4 g' 1]
  from t f have roots: "\<forall>s t. root_of g' s t \<longleftrightarrow> root_of ?g s t"
    and rel: "\<And>v. g' v = (if on_path ?g 4 v \<and> merged_into (?g v) \<noteq> None
                    then (?g v)\<lparr>merged_into := Some 1\<rparr> else ?g v)" by blast+
  from rel [of 4] p4 have g4: "g' 4 = (Room 4)\<lparr>merged_into := Some 1\<rparr>" by simp
  from rel [of 3] p3 have g3: "g' 3 = (Room 3)\<lparr>merged_into := Some 1\<rparr>" by simp
  from rel [of 2] p2 have g2: "g' 2 = (Room 2)\<lparr>merged_into := Some 1\<rparr>" by simp
  from rel [of 1] have g1: "g' 1 = Room 1" by (simp add: Room_def)
  from rel [of 5] n5 have g5: "g' 5 = (Room 5)\<lparr>merged_into := Some 2\<rparr>" by simp
  from f g4 g3 g2 g1 g5 roots have second: "\<exists>g'. final 4 ?g 4 = Inr (g', 1) \<and>
         g' 4 = (Room 4)\<lparr>merged_into := Some 1\<rparr> \<and> g' 3 = (Room 3)\<lparr>merged_into := Some 1\<rparr> \<and>
         g' 2 = (Room 2)\<lparr>merged_into := Some 1\<rparr> \<and> g' 1 = Room 1 \<and>
         g' 5 = (Room 5)\<lparr>merged_into := Some 2\<rparr> \<and>
         (\<forall>s t. root_of g' s t \<longleftrightarrow> root_of ?g s t)" by blast
  from first second show ?thesis unfolding Let_def by (rule conjI)
qed

section \<open>The formatter\<close>

lemma fold_add_total:
  "fold (add_total r) CHAIR_TYPES acc = (\<lambda>t. acc t + chairs r t)"
proof
  fix t show "fold (add_total r) CHAIR_TYPES acc t = acc t + chairs r t"
    by (cases t) (simp_all add: CHAIR_TYPES_def add_total_def)
qed

lemma fold_totals:
  "fold (\<lambda>r. fold (add_total r) CHAIR_TYPES) rooms acc =
     (\<lambda>t. acc t + sum_list (map (\<lambda>r. chairs r t) rooms))"
proof (induction rooms arbitrary: acc)
  case Nil
  show ?case by simp
next
  case (Cons r rooms)
  have "fold (\<lambda>r. fold (add_total r) CHAIR_TYPES) (r # rooms) acc =
        fold (\<lambda>r. fold (add_total r) CHAIR_TYPES) rooms (\<lambda>t. acc t + chairs r t)"
    by (simp only: fold_simps fold_add_total)
  also have "\<dots> = (\<lambda>t. (acc t + chairs r t) + sum_list (map (\<lambda>r. chairs r t) rooms))"
    by (rule Cons.IH)
  finally show ?case by (simp add: add.assoc)
qed

lemma join_lines:
  "ls \<noteq> [] \<Longrightarrow> join sep ls @ sep = concat (map (\<lambda>l. l @ sep) ls)"
  by (induction sep ls rule: join.induct) simp_all

lemma concat_room_lines:
  "concat (map (\<lambda>l. l @ sep) (concat (map (\<lambda>r. [f r, g r]) rs))) =
     concat (map (\<lambda>r. f r @ sep @ g r @ sep) rs)"
  by (induction rs) simp_all

lemma format_chair_line_eq:
  "format_chair_line cs =
     ''W: '' @ str_int (cs W) @ '', P: '' @ str_int (cs P) @ '', S: '' @ str_int (cs S) @
     '', C: '' @ str_int (cs C)"
  by (simp add: format_chair_line_def CHAIR_TYPES_def)

text \<open>
  C8.  The output of \<^verbatim>\<open>format_output\<close> is the line \<^verbatim>\<open>total:\<close>, the chair line of the
  elementwise sums over all rooms, and then for each room of \<open>sorted_rooms\<close> its name
  followed by a colon and its chair line, every line ended by a newline (so the output
  ends with one).  \<open>sorted_rooms\<close> is the stable sort of the rooms by name: its keys
  ascend in the lexicographic order of strings (the empty string first), and the rooms
  of equal key keep their order.  A chair line lists W, P, S, C in this order as
  \<^verbatim>\<open><Type>: <count>\<close>, joined by a comma and a space.  The key of a room without a name
  is the empty string, and its name prints as \<^verbatim>\<open>None\<close>.
\<close>

theorem format_output_layout:
  "\<exists>sorted_rooms.
     format_output rooms =
       ''total:'' @ [CHR 0x0A] @
       format_chair_line (\<lambda>t. sum_list (map (\<lambda>r. chairs r t) rooms)) @ [CHR 0x0A] @
       concat (map (\<lambda>r. str_name (name r) @ '':'' @ [CHR 0x0A] @
                         format_chair_line (chairs r) @ [CHR 0x0A]) sorted_rooms) \<and>
     sorted (map name_or_empty sorted_rooms) \<and>
     set sorted_rooms = set rooms \<and> length sorted_rooms = length rooms \<and>
     (\<forall>k. filter (\<lambda>r. name_or_empty r = k) sorted_rooms = filter (\<lambda>r. name_or_empty r = k) rooms) \<and>
     (\<forall>cs. format_chair_line cs =
        ''W: '' @ str_int (cs W) @ '', P: '' @ str_int (cs P) @ '', S: '' @ str_int (cs S) @
        '', C: '' @ str_int (cs C)) \<and>
     last (format_output rooms) = CHR 0x0A"
proof -
  let ?srt = "sort_key name_or_empty rooms"
  have out: "format_output rooms =
       ''total:'' @ [CHR 0x0A] @
       format_chair_line (\<lambda>t. sum_list (map (\<lambda>r. chairs r t) rooms)) @ [CHR 0x0A] @
       concat (map (\<lambda>r. str_name (name r) @ '':'' @ [CHR 0x0A] @
                         format_chair_line (chairs r) @ [CHR 0x0A]) ?srt)"
    unfolding format_output_def Let_def fold_totals
    by (simp add: join_lines concat_room_lines del: name_or_empty.simps)
  have l: "last (format_output rooms) = CHR 0x0A"
    by (simp add: format_output_def Let_def)
  have "sorted (map name_or_empty ?srt)" by (rule sorted_sort_key)
  moreover have "set ?srt = set rooms" "length ?srt = length rooms" by simp_all
  moreover have "\<forall>k. filter (\<lambda>r. name_or_empty r = k) ?srt = filter (\<lambda>r. name_or_empty r = k) rooms"
    by (simp add: sort_key_stable del: name_or_empty.simps)
  ultimately show ?thesis using out l format_chair_line_eq by blast
qed

section \<open>The store invariant of the scanner\<close>

lemma ranked_final:
  assumes "ranked B h" and "B \<le> n"
  shows "\<exists>h' a. final n h r = Inr (h', a)"
proof -
  from assms(1) obtain rank :: "addr \<Rightarrow> nat"
    where lt: "\<And>r p. merged_into (h r) = Some p \<Longrightarrow> rank r < rank p"
      and bd: "\<And>r. rank r < B"
    unfolding ranked_def by blast
  have "B - rank r \<le> k \<Longrightarrow> \<exists>h' a. final k h r = Inr (h', a)" for k r
  proof (induction k arbitrary: r)
    case 0
    with bd [of r] show ?case by simp
  next
    case (Suc k)
    show ?case
    proof (cases "merged_into (h r)")
      case None
      then show ?thesis by simp
    next
      case (Some p)
      from lt [OF Some] bd [of p] Suc.prems have "B - rank p \<le> k" by arith
      then obtain h1 a where "final k h p = Inr (h1, a)" using Suc.IH by blast
      with Some show ?thesis by simp
    qed
  qed
  moreover from assms(2) have "B - rank r \<le> n" by arith
  ultimately show ?thesis by blast
qed

lemma ranked_mono: "ranked B h \<Longrightarrow> B \<le> B' \<Longrightarrow> ranked B' h"
  unfolding ranked_def by (meson less_le_trans)

lemma ranked_fewer_links:
  assumes "ranked B h" and "\<And>x p. merged_into (h' x) = Some p \<Longrightarrow> merged_into (h x) = Some p"
  shows "ranked B h'"
  using assms unfolding ranked_def by blast

lemma rank_root_of:
  assumes lt: "\<And>r p. merged_into (h r) = Some p \<Longrightarrow> (rank r :: nat) < rank p"
    and r: "root_of h r a"
  shows "rank r \<le> rank a \<and> (merged_into (h r) \<noteq> None \<longrightarrow> rank r < rank a)"
  using r
proof (induction rule: root_of.induct)
  case (root_self r)
  then show ?case by simp
next
  case (root_step r p a)
  from lt [OF root_step.hyps(1)] root_step.IH show ?case by simp
qed

lemma ranked_compressed:
  assumes "ranked B h" and c: "compressed h h'"
  shows "ranked B h'"
proof -
  from assms(1) obtain rank :: "addr \<Rightarrow> nat"
    where lt: "\<And>r p. merged_into (h r) = Some p \<Longrightarrow> rank r < rank p"
      and bd: "\<And>r. rank r < B"
    unfolding ranked_def by blast
  have "rank r < rank p" if l: "merged_into (h' r) = Some p" for r p
  proof -
    from compressedD [OF c, of r] show ?thesis
    proof
      assume "h' r = h r"
      with l lt show ?thesis by simp
    next
      assume "\<exists>a. h' r = (h r)\<lparr>merged_into := Some a\<rparr> \<and> root_of h r a \<and> merged_into (h r) \<noteq> None"
      then obtain a where a: "h' r = (h r)\<lparr>merged_into := Some a\<rparr>" "root_of h r a"
          "merged_into (h r) \<noteq> None" by blast
      from a(1) l have "p = a" by simp
      with rank_root_of [of h rank r a] lt a(2,3) show ?thesis by blast
    qed
  qed
  with bd show ?thesis unfolding ranked_def by blast
qed

lemma ranked_merge:
  assumes "ranked B h" and "merged_into (h a) = None" and "a \<noteq> b"
  shows "ranked (Suc B) (fst (merge_with h a b))"
proof -
  from assms(1) obtain rank :: "addr \<Rightarrow> nat"
    where lt: "\<And>r p. merged_into (h r) = Some p \<Longrightarrow> rank r < rank p"
      and bd: "\<And>r. rank r < B"
    unfolding ranked_def by blast
  let ?rank = "rank(a := max (rank a) (Suc (rank b)))"
  let ?h = "fst (merge_with h a b)"
  have links: "merged_into (?h r) = (if r = b then Some a else merged_into (h r))" for r
    using assms(3) by (simp add: merge_with_distinct)
  have "?rank r < ?rank p" if l: "merged_into (?h r) = Some p" for r p
  proof (cases "r = b")
    case True
    with l links have "p = a" by simp
    with True assms(3) show ?thesis by simp
  next
    case False
    with l links have hl: "merged_into (h r) = Some p" by simp
    with assms(2) have "r \<noteq> a" by auto
    with lt [OF hl] show ?thesis by (auto simp: max_def)
  qed
  moreover have "?rank r < Suc B" for r
    using bd [of r] bd [of a] bd [of b] by (simp add: max_def)
  ultimately show ?thesis unfolding ranked_def by blast
qed

lemma root_of_in_range:
  assumes "closed n h" and "root_of h r a" and "1 \<le> r" and "r \<le> n"
  shows "1 \<le> a \<and> a \<le> n"
  using assms(2,3,4)
proof (induction rule: root_of.induct)
  case (root_self r)
  then show ?case by simp
next
  case (root_step r p a)
  from assms(1) root_step.hyps(1) have "1 \<le> p \<and> p \<le> n" unfolding closed_def by blast
  with root_step.IH show ?case by simp
qed

lemma closed_compressed:
  assumes "closed n h" and c: "compressed h h'"
  shows "closed n h'"
  unfolding closed_def
proof (intro allI impI)
  fix r p assume l: "merged_into (h' r) = Some p"
  from compressedD [OF c, of r] show "1 \<le> r \<and> r \<le> n \<and> 1 \<le> p \<and> p \<le> n"
  proof
    assume "h' r = h r"
    with l assms(1) show ?thesis unfolding closed_def by simp
  next
    assume "\<exists>a. h' r = (h r)\<lparr>merged_into := Some a\<rparr> \<and> root_of h r a \<and> merged_into (h r) \<noteq> None"
    then obtain a q where a: "h' r = (h r)\<lparr>merged_into := Some a\<rparr>" "root_of h r a"
        "merged_into (h r) = Some q" by auto
    from a(1) l have "p = a" by simp
    from assms(1) a(3) have rr: "1 \<le> r \<and> r \<le> n" unfolding closed_def by blast
    with root_of_in_range [OF assms(1) a(2)] \<open>p = a\<close> show ?thesis by simp
  qed
qed

lemma heap_inv_compressed:
  assumes "heap_inv B n h" and "compressed h h'"
  shows "heap_inv B n h'"
proof -
  from assms have "ranked B h'" "closed n h'"
    by (auto simp: heap_inv_def intro: ranked_compressed closed_compressed)
  with assms(1) compressed_fields [OF assms(2)] show ?thesis
    unfolding heap_inv_def by simp
qed

lemma heap_inv_final:
  assumes "heap_inv B n h" and "final k h r = Inr (h', a)"
  shows "heap_inv B n h'" and "merged_into (h' a) = None"
    and "1 \<le> r \<Longrightarrow> r \<le> n \<Longrightarrow> 1 \<le> a \<and> a \<le> n"
proof -
  from assms(2) have ra: "root_of h r a" and c: "compressed h h'"
    by (simp_all add: final_compresses)
  from assms(1) c show "heap_inv B n h'" by (rule heap_inv_compressed)
  from ra have "merged_into (h a) = None" by (rule root_of_is_root)
  with c show "merged_into (h' a) = None" by (simp add: compressed_root_unchanged)
  from assms(1) have "closed n h" by (simp add: heap_inv_def)
  from root_of_in_range [OF this ra] show "1 \<le> r \<Longrightarrow> r \<le> n \<Longrightarrow> 1 \<le> a \<and> a \<le> n" by simp
qed

lemma heap_inv_exists_final:
  "heap_inv B n h \<Longrightarrow> B \<le> k \<Longrightarrow> \<exists>h' a. final k h r = Inr (h', a)"
  unfolding heap_inv_def by (blast intro: ranked_final)

lemma heap_inv_merge:
  assumes "heap_inv B n h" and "merged_into (h a) = None" and "a \<noteq> b"
    and "1 \<le> a" "a \<le> n" "1 \<le> b" "b \<le> n"
  shows "heap_inv (Suc B) n (fst (merge_with h a b))"
proof -
  let ?h = "fst (merge_with h a b)"
  have links: "merged_into (?h r) = (if r = b then Some a else merged_into (h r))" for r
    using assms(3) by (simp add: merge_with_distinct)
  have ids: "id' (?h r) = id' (h r)" for r
    using assms(3) by (simp add: merge_with_distinct)
  have ch: "chairs (?h r) t = (if r = a then chairs (h a) t + chairs (h b) t else chairs (h r) t)" for r t
    using assms(3) by (simp add: merge_with_distinct)
  from assms(1-3) have "ranked (Suc B) ?h" by (simp add: heap_inv_def ranked_merge)
  moreover from assms(1,4-7) have "closed n ?h"
    unfolding heap_inv_def closed_def links by auto
  moreover from assms(1) have "\<forall>r. 1 \<le> r \<and> r \<le> n \<longrightarrow> id' (?h r) = int r"
    unfolding heap_inv_def ids by simp
  moreover from assms(1) have "\<forall>r t. 0 \<le> chairs (?h r) t"
    unfolding heap_inv_def ch by simp
  ultimately show ?thesis unfolding heap_inv_def by simp
qed

lemma heap_inv_alloc:
  assumes "heap_inv B n h"
  shows "heap_inv B (Suc n) (h(Suc n := Room (int (Suc n))))"
proof -
  let ?h = "h(Suc n := Room (int (Suc n)))"
  from assms have "ranked B h" by (simp add: heap_inv_def)
  then have "ranked B ?h"
    by (rule ranked_fewer_links) (simp add: Room_def split: if_splits)
  moreover from assms have "closed (Suc n) ?h"
    unfolding heap_inv_def closed_def by (auto simp: Room_def le_Suc_eq)
  moreover from assms have "\<forall>r. 1 \<le> r \<and> r \<le> Suc n \<longrightarrow> id' (?h r) = int r"
    unfolding heap_inv_def by (auto simp: Room_def le_Suc_eq)
  moreover from assms have "\<forall>r t. 0 \<le> chairs (?h r) t"
    unfolding heap_inv_def by (simp add: Room_def)
  ultimately show ?thesis unfolding heap_inv_def by simp
qed

lemma heap_inv_chair:
  assumes "heap_inv B n h"
  shows "heap_inv B n (h(r := (h r)\<lparr>chairs := (chairs (h r))(t := chairs (h r) t + 1)\<rparr>))"
proof -
  let ?h = "h(r := (h r)\<lparr>chairs := (chairs (h r))(t := chairs (h r) t + 1)\<rparr>)"
  from assms have "ranked B h" by (simp add: heap_inv_def)
  then have "ranked B ?h"
    by (rule ranked_fewer_links) (simp split: if_splits)
  moreover from assms have "closed n ?h"
    unfolding heap_inv_def closed_def by auto
  moreover from assms have "\<forall>a. 1 \<le> a \<and> a \<le> n \<longrightarrow> id' (?h a) = int a"
    unfolding heap_inv_def by auto
  moreover from assms have "0 \<le> chairs (?h a) u" for a u
    unfolding heap_inv_def by (auto simp: add_nonneg_nonneg)
  ultimately show ?thesis unfolding heap_inv_def by simp
qed

lemma heap_inv_name:
  assumes "heap_inv B n h"
  shows "heap_inv B n (h(r := (h r)\<lparr>name := x\<rparr>))"
proof -
  let ?h = "h(r := (h r)\<lparr>name := x\<rparr>)"
  from assms have "ranked B h" by (simp add: heap_inv_def)
  then have "ranked B ?h"
    by (rule ranked_fewer_links) (simp split: if_splits)
  moreover from assms have "closed n ?h"
    unfolding heap_inv_def closed_def by auto
  moreover from assms have "\<forall>a. 1 \<le> a \<and> a \<le> n \<longrightarrow> id' (?h a) = int a"
    unfolding heap_inv_def by auto
  moreover from assms have "\<forall>a u. 0 \<le> chairs (?h a) u"
    unfolding heap_inv_def by auto
  ultimately show ?thesis unfolding heap_inv_def by simp
qed

lemma heap_inv_mono: "heap_inv B n h \<Longrightarrow> B \<le> B' \<Longrightarrow> heap_inv B' n h"
  unfolding heap_inv_def by (auto intro: ranked_mono)

lemma heap_inv_init: "heap_inv 1 0 (\<lambda>_. Room 0)"
proof -
  have "ranked 1 (\<lambda>_. Room 0)"
    unfolding ranked_def by (rule exI [of _ "\<lambda>_. 0"]) (simp add: Room_def)
  then show ?thesis
    unfolding heap_inv_def closed_def by (simp add: Room_def)
qed

section \<open>The scanner keeps its invariant and does not fail\<close>

lemma for_each_inv:
  assumes step: "\<And>x B s. x \<in> set xs \<Longrightarrow> I B s \<Longrightarrow> B + d \<le> N \<Longrightarrow>
                   \<exists>s'. body x s = Inr s' \<and> I (B + d) s'"
    and "I B s" and "B + d * length xs \<le> N"
  shows "\<exists>s'. for_each body xs s = Inr s' \<and> I (B + d * length xs) s'"
  using assms
proof (induction xs arbitrary: B s)
  case Nil
  then show ?case by simp
next
  case (Cons x xs)
  from Cons.prems(3) have "B + d \<le> N" by simp
  with Cons.prems(1) [of x B s] Cons.prems(2)
  obtain s1 where s1: "body x s = Inr s1" "I (B + d) s1" by auto
  have "\<exists>s'. for_each body xs s1 = Inr s' \<and> I (B + d + d * length xs) s'"
  proof (rule Cons.IH)
    show "\<exists>s'. body x' s = Inr s' \<and> I (B' + d) s'"
      if "x' \<in> set xs" "I B' s" "B' + d \<le> N" for x' B' s
      using that Cons.prems(1) [of x' B' s] by simp
    show "I (B + d) s1" by (rule s1(2))
    from Cons.prems(3) show "B + d + d * length xs \<le> N" by simp
  qed
  with s1(1) show ?case by (simp add: add.assoc)
qed

lemma for_each_append:
  "for_each body (xs @ ys) s =
     (case for_each body xs s of Inl e \<Rightarrow> Inl e | Inr s1 \<Rightarrow> for_each body ys s1)"
  by (induction xs arbitrary: s) (simp_all split: sum.splits)

lemma for_each_concat:
  "for_each (\<lambda>row. for_each body row) rows s = for_each body (concat rows) s"
  by (induction rows arbitrary: s) (simp_all add: for_each_append split: sum.splits)

lemma get_room_in_cells:
  assumes "get_room g x y = Some c" and "length (cells g) = height g"
    and "\<forall>row\<in>set (cells g). length row = width g"
  shows "\<exists>row\<in>set (cells g). Some c \<in> set row"
proof -
  from assms(1) have y: "0 \<le> y" "y < int (height g)" and x: "0 \<le> x" "x < int (width g)"
    and c: "cells g ! nat y ! nat x = Some c"
    by (auto simp: get_room_def split: if_splits)
  from y assms(2) have ny: "nat y < length (cells g)" by simp
  then have row: "cells g ! nat y \<in> set (cells g)" by simp
  with assms(3) x have "nat x < length (cells g ! nat y)" by simp
  then have "cells g ! nat y ! nat x \<in> set (cells g ! nat y)" by simp
  with c row show ?thesis by auto
qed

lemma room_above_in_cells:
  assumes "get_connected_room_above g x y = Some c" and "length (cells g) = height g"
    and "\<forall>row\<in>set (cells g). length row = width g"
  shows "\<exists>row\<in>set (cells g). Some c \<in> set row"
proof -
  from assms(1) have "get_room g x (y - 1) = Some c"
    by (simp add: get_connected_room_above_def split: if_splits)
  then show ?thesis using assms(2,3) by (rule get_room_in_cells)
qed

lemma set_room_ok:
  assumes "length (cells g) = height g" and "\<forall>row\<in>set (cells g). length row = width g"
    and "y < height g" and "x < width g"
  shows "set_room g (int x) (int y) c =
           Inr (g\<lparr>cells := (cells g)[y := (cells g ! y)[x := Some c]]\<rparr>)"
proof -
  from assms(1,3) have "cells g ! y \<in> set (cells g)" by simp
  with assms(2,4) have "x < length (cells g ! y)" by simp
  with assms(1,3) show ?thesis by (simp add: set_room_def py_index_def)
qed

lemma open_room_inv:
  assumes "scan_inv g0 B s" and "open_room s = (s1, cur)"
  shows "scan_inv g0 B s1" and "current_room s1 = Some cur" and "1 \<le> cur" and "cur \<le> room_counter s1"
    and "grid s1 = grid s" and "name_buffer s1 = name_buffer s"
proof -
  have "scan_inv g0 B s1 \<and> current_room s1 = Some cur \<and> 1 \<le> cur \<and> cur \<le> room_counter s1 \<and>
        grid s1 = grid s \<and> name_buffer s1 = name_buffer s" (is ?all)
  proof (cases "current_room s")
    case (Some c)
    with assms show ?all by (auto simp: open_room_def scan_inv_def)
  next
    case None
    with assms(2) have s1: "s1 = s\<lparr>room_counter := Suc (room_counter s),
        heap := (heap s)(Suc (room_counter s) := Room (int (Suc (room_counter s)))),
        current_room := Some (Suc (room_counter s))\<rparr>" and cur: "cur = Suc (room_counter s)"
      by (auto simp: open_room_def Let_def add.commute)
    from assms(1) have "heap_inv B (room_counter s) (heap s)" by (simp add: scan_inv_def)
    then have "heap_inv B (Suc (room_counter s))
                 ((heap s)(Suc (room_counter s) := Room (int (Suc (room_counter s)))))"
      by (rule heap_inv_alloc)
    with assms(1) show ?all unfolding s1 cur scan_inv_def by (auto simp: le_Suc_eq)
  qed
  then show "scan_inv g0 B s1" and "current_room s1 = Some cur" and "1 \<le> cur"
    and "cur \<le> room_counter s1" and "grid s1 = grid s" and "name_buffer s1 = name_buffer s"
    by simp_all
qed

lemma scan_inv_heap:
  assumes "scan_inv g0 B s" and "heap_inv B' (room_counter s) h"
  shows "scan_inv g0 B' (s\<lparr>heap := h\<rparr>)"
  using assms by (simp add: scan_inv_def)

lemma connect_above_inv:
  assumes inv: "scan_inv g0 B s" and cur: "1 \<le> cur" "cur \<le> room_counter s" and lim: "B \<le> limit"
  shows "\<exists>h. connect_above limit x y cur s = Inr (s\<lparr>heap := h\<rparr>) \<and> heap_inv (Suc B) (room_counter s) h"
proof (cases "get_connected_room_above (grid s) x y")
  case None
  from inv have "heap_inv B (room_counter s) (heap s)" by (simp add: scan_inv_def)
  then have "heap_inv (Suc B) (room_counter s) (heap s)" by (rule heap_inv_mono) simp
  moreover from None have "connect_above limit x y cur s = Inr (s\<lparr>heap := heap s\<rparr>)"
    by (simp add: connect_above_def)
  ultimately show ?thesis by blast
next
  case (Some ra)
  from inv have hi: "heap_inv B (room_counter s) (heap s)" by (simp add: scan_inv_def)
  from inv Some have "\<exists>row\<in>set (cells (grid s)). Some ra \<in> set row"
    by (intro room_above_in_cells [of "grid s" x y]) (simp_all add: scan_inv_def)
  with inv have ra: "1 \<le> ra" "ra \<le> room_counter s" by (auto simp: scan_inv_def)
  from heap_inv_exists_final [OF hi lim] obtain h1 fa
    where f1: "final limit (heap s) ra = Inr (h1, fa)" by blast
  from heap_inv_final [OF hi f1] ra
  have h1: "heap_inv B (room_counter s) h1" and fa: "merged_into (h1 fa) = None"
      "1 \<le> fa" "fa \<le> room_counter s" by simp_all
  from heap_inv_exists_final [OF h1 lim] obtain h2 fc
    where f2: "final limit h1 cur = Inr (h2, fc)" by blast
  from heap_inv_final [OF h1 f2] cur
  have h2: "heap_inv B (room_counter s) h2" and fc: "merged_into (h2 fc) = None"
      "1 \<le> fc" "fc \<le> room_counter s" by simp_all
  from f2 have "compressed h1 h2" by (simp add: final_compresses)
  with fa(1) have fa2: "merged_into (h2 fa) = None" by (simp add: compressed_root_unchanged)
  show ?thesis
  proof (cases "fa = fc")
    case True
    with Some f1 f2 have "connect_above limit x y cur s = Inr (s\<lparr>heap := h2\<rparr>)"
      by (simp add: connect_above_def)
    moreover from h2 have "heap_inv (Suc B) (room_counter s) h2" by (rule heap_inv_mono) simp
    ultimately show ?thesis by blast
  next
    case False
    with Some f1 f2 have "connect_above limit x y cur s =
        Inr (s\<lparr>heap := fst (merge_with h2 fa fc)\<rparr>)"
      by (simp add: connect_above_def)
    moreover from h2 fa2 False fa(2,3) fc(2,3)
    have "heap_inv (Suc B) (room_counter s) (fst (merge_with h2 fa fc))"
      by (rule heap_inv_merge)
    ultimately show ?thesis by blast
  qed
qed

lemma chair_key_iff: "chair_key ch \<noteq> None \<longleftrightarrow> ch \<in> CHAIR_CHARS"
  by (simp add: chair_key_def CHAIR_CHARS_def)

lemma count_chair_inv:
  assumes hi: "heap_inv B (room_counter s) (heap s)" and lim: "B \<le> limit"
  shows "\<exists>h. count_chair limit ch cur s = Inr (s\<lparr>heap := h\<rparr>) \<and> heap_inv B (room_counter s) h"
proof (cases "ch \<in> CHAIR_CHARS")
  case False
  then have "count_chair limit ch cur s = Inr (s\<lparr>heap := heap s\<rparr>)"
    by (simp add: count_chair_def)
  with hi show ?thesis by blast
next
  case True
  then obtain t where t: "chair_key ch = Some t" using chair_key_iff [of ch] by auto
  from heap_inv_exists_final [OF hi lim] obtain h1 r
    where f: "final limit (heap s) cur = Inr (h1, r)" by blast
  from heap_inv_final(1) [OF hi f] have "heap_inv B (room_counter s) h1" .
  then have "heap_inv B (room_counter s)
               (h1(r := (h1 r)\<lparr>chairs := (chairs (h1 r))(t := chairs (h1 r) t + 1)\<rparr>))"
    by (rule heap_inv_chair)
  moreover from True t f have "count_chair limit ch cur s =
      Inr (s\<lparr>heap := h1(r := (h1 r)\<lparr>chairs := (chairs (h1 r))(t := chairs (h1 r) t + 1)\<rparr>)\<rparr>)"
    by (simp add: count_chair_def)
  ultimately show ?thesis by blast
qed

lemma track_name_inv:
  assumes hi: "heap_inv B (room_counter s) (heap s)" and lim: "B \<le> limit"
  shows "\<exists>h nb. track_name limit ch cur s = Inr (s\<lparr>heap := h, name_buffer := nb\<rparr>) \<and>
           heap_inv B (room_counter s) h"
proof -
  consider (op) "ch = CHR ''(''"
    | (cl) "ch \<noteq> CHR ''(''" "ch = CHR '')''" "name_buffer s \<noteq> None"
    | (other) "ch \<noteq> CHR ''(''" "\<not> (ch = CHR '')'' \<and> name_buffer s \<noteq> None)"
    by blast
  then show ?thesis
  proof cases
    case op
    then have "track_name limit ch cur s = Inr (s\<lparr>heap := heap s, name_buffer := Some []\<rparr>)"
      by (simp add: track_name_def)
    with hi show ?thesis by blast
  next
    case cl
    from heap_inv_exists_final [OF hi lim] obtain h1 r
      where f: "final limit (heap s) cur = Inr (h1, r)" by blast
    from heap_inv_final(1) [OF hi f] have "heap_inv B (room_counter s) h1" .
    then have "heap_inv B (room_counter s) (h1(r := (h1 r)\<lparr>name := name_buffer s\<rparr>))"
      by (rule heap_inv_name)
    moreover from cl f have "track_name limit ch cur s =
        Inr (s\<lparr>heap := h1(r := (h1 r)\<lparr>name := name_buffer s\<rparr>), name_buffer := None\<rparr>)"
      by (simp add: track_name_def)
    ultimately show ?thesis by blast
  next
    case other
    then have "track_name limit ch cur s =
        Inr (s\<lparr>heap := heap s,
               name_buffer := (case name_buffer s of Some buf \<Rightarrow> Some (buf @ [ch]) | None \<Rightarrow> None)\<rparr>)"
      by (auto simp: track_name_def split: option.splits)
    with hi show ?thesis by blast
  qed
qed

lemma cells_update_shape:
  assumes "\<forall>row\<in>set cs. length row = w"
  shows "\<forall>row\<in>set (cs[y := (cs ! y)[x := v]]). length row = w"
proof
  fix row assume "row \<in> set (cs[y := (cs ! y)[x := v]])"
  then have "row = (cs ! y)[x := v] \<or> row \<in> set cs"
    using set_update_subset_insert [of cs y "(cs ! y)[x := v]"] by auto
  moreover have "length ((cs ! y)[x := v]) = w" if "y < length cs"
    using that assms by simp
  moreover have "row \<in> set cs" if "\<not> y < length cs"
    using that \<open>row \<in> set (cs[y := (cs ! y)[x := v]])\<close> by (simp add: list_update_beyond)
  ultimately show "length row = w" using assms by blast
qed

lemma cells_update_range:
  assumes "\<forall>row\<in>set cs. \<forall>c. Some c \<in> set row \<longrightarrow> 1 \<le> c \<and> c \<le> (n::nat)"
    and "1 \<le> v" and "v \<le> n"
  shows "\<forall>row\<in>set (cs[y := (cs ! y)[x := Some v]]). \<forall>c. Some c \<in> set row \<longrightarrow> 1 \<le> c \<and> c \<le> n"
proof (intro ballI allI impI)
  fix row c assume row: "row \<in> set (cs[y := (cs ! y)[x := Some v]])" and c: "Some c \<in> set row"
  have "row \<in> set cs" if "\<not> y < length cs"
    using that row by (simp add: list_update_beyond)
  moreover from row have "row = (cs ! y)[x := Some v] \<or> row \<in> set cs"
    using set_update_subset_insert [of cs y "(cs ! y)[x := Some v]"] by auto
  ultimately have "row = (cs ! y)[x := Some v] \<and> y < length cs \<or> row \<in> set cs"
    by blast
  then show "1 \<le> c \<and> c \<le> n"
  proof
    assume r: "row = (cs ! y)[x := Some v] \<and> y < length cs"
    with c have "Some c \<in> insert (Some v) (set (cs ! y))"
      using set_update_subset_insert [of "cs ! y" x "Some v"] by auto
    moreover from r have "cs ! y \<in> set cs" by simp
    ultimately show ?thesis using assms by auto
  next
    assume "row \<in> set cs"
    with c assms(1) show ?thesis by blast
  qed
qed

lemma scan_cell_inv:
  assumes inv: "scan_inv g0 B s" and lim: "Suc B \<le> limit"
    and x: "x < width g0" and y: "y < height g0"
  shows "\<exists>s'. scan_cell limit y x s = Inr s' \<and> scan_inv g0 (Suc B) s'"
proof (cases "is_wall (grid s) (int x) (int y)")
  case True
  then have "scan_cell limit y x s = Inr (s\<lparr>current_room := None, name_buffer := None\<rparr>)"
    by (simp add: scan_cell_def)
  moreover from inv have "scan_inv g0 (Suc B) (s\<lparr>current_room := None, name_buffer := None\<rparr>)"
    unfolding scan_inv_def by (auto intro: heap_inv_mono)
  ultimately show ?thesis by blast
next
  case False
  obtain s1 cur where o: "open_room s = (s1, cur)" by (cases "open_room s")
  note o1 = open_room_inv [OF inv o]
  from lim have limB: "B \<le> limit" by simp
  from connect_above_inv [OF o1(1) o1(3,4) limB, of "int x" "int y"] obtain h2
    where c: "connect_above limit (int x) (int y) cur s1 = Inr (s1\<lparr>heap := h2\<rparr>)"
      and h2: "heap_inv (Suc B) (room_counter s1) h2" by blast
  let ?g = "(grid s1)\<lparr>cells := (cells (grid s1))[y := (cells (grid s1) ! y)[x := Some cur]]\<rparr>"
  from o1(1) x y have sr: "set_room (grid s1) (int x) (int y) cur = Inr ?g"
    by (intro set_room_ok) (simp_all add: scan_inv_def)
  let ?s3 = "s1\<lparr>heap := h2, grid := ?g\<rparr>"
  from h2 have "heap_inv (Suc B) (room_counter ?s3) (heap ?s3)" by simp
  from count_chair_inv [OF this lim, of "get_char (grid s) (int x) (int y)" cur] obtain h4
    where cc: "count_chair limit (get_char (grid s) (int x) (int y)) cur ?s3 = Inr (?s3\<lparr>heap := h4\<rparr>)"
      and h4: "heap_inv (Suc B) (room_counter s1) h4" by auto
  let ?s4 = "?s3\<lparr>heap := h4\<rparr>"
  from h4 have "heap_inv (Suc B) (room_counter ?s4) (heap ?s4)" by simp
  from track_name_inv [OF this lim, of "get_char (grid s) (int x) (int y)" cur] obtain h5 nb
    where tn: "track_name limit (get_char (grid s) (int x) (int y)) cur ?s4 =
                 Inr (?s4\<lparr>heap := h5, name_buffer := nb\<rparr>)"
      and h5: "heap_inv (Suc B) (room_counter s1) h5" by auto
  let ?s5 = "?s4\<lparr>heap := h5, name_buffer := nb\<rparr>"
  from False o c sr cc tn have "scan_cell limit y x s = Inr ?s5"
    by (simp add: scan_cell_def Let_def)
  moreover have "scan_inv g0 (Suc B) ?s5"
  proof -
    from o1(1) have sh: "\<forall>row\<in>set (cells (grid s1)). length row = width g0"
      and rg: "\<forall>row\<in>set (cells (grid s1)). \<forall>c. Some c \<in> set row \<longrightarrow> 1 \<le> c \<and> c \<le> room_counter s1"
      by (simp_all add: scan_inv_def)
    from cells_update_shape [OF sh, of y x "Some cur"]
      cells_update_range [OF rg o1(3,4), of y x] o1(1,2,3,4) h5
    show ?thesis unfolding scan_inv_def by simp
  qed
  ultimately show ?thesis by blast
qed

lemma scan_row_inv:
  assumes inv: "scan_inv g0 B s" and lim: "B + width g0 \<le> limit" and y: "y < height g0"
  shows "\<exists>s'. scan_row limit y s = Inr s' \<and> scan_inv g0 (B + width g0) s'"
proof -
  let ?s = "s\<lparr>current_room := None, name_buffer := None\<rparr>"
  from inv have w: "width (grid s) = width g0" and inv0: "scan_inv g0 B ?s"
    by (simp_all add: scan_inv_def)
  have "\<exists>s'. for_each (scan_cell limit y) [0..<width g0] ?s = Inr s' \<and>
          scan_inv g0 (B + 1 * length [0..<width g0]) s'"
  proof (rule for_each_inv [where N = limit])
    show "\<exists>s'. scan_cell limit y x s = Inr s' \<and> scan_inv g0 (B' + 1) s'"
      if "x \<in> set [0..<width g0]" "scan_inv g0 B' s" "B' + 1 \<le> limit" for x B' s
      using scan_cell_inv [of g0 B' s limit x y] that y by simp
    show "scan_inv g0 B ?s" by (rule inv0)
    from lim show "B + 1 * length [0..<width g0] \<le> limit" by simp
  qed
  with w show ?thesis by (simp add: scan_row_def)
qed

lemma scan_inv_init:
  "scan_inv (Grid text) 1 (init_scanner (Grid text))"
  unfolding scan_inv_def init_scanner_def using heap_inv_init
  by (simp add: Grid_def Let_def)

lemma scan_inv_scan:
  assumes "height (Grid text) * width (Grid text) < limit"
  shows "\<exists>s. scan limit text = Inr s \<and>
           scan_inv (Grid text) (Suc (height (Grid text) * width (Grid text))) s"
proof -
  let ?g = "Grid text"
  have "\<exists>s'. for_each (scan_row limit) [0..<height ?g] (init_scanner ?g) = Inr s' \<and>
          scan_inv ?g (1 + width ?g * length [0..<height ?g]) s'"
  proof (rule for_each_inv [where N = limit])
    show "\<exists>s'. scan_row limit y s = Inr s' \<and> scan_inv ?g (B + width ?g) s'"
      if "y \<in> set [0..<height ?g]" "scan_inv ?g B s" "B + width ?g \<le> limit" for y B s
      using scan_row_inv [of ?g B s limit y] that by simp
    show "scan_inv ?g 1 (init_scanner ?g)" by (rule scan_inv_init)
    from assms show "1 + width ?g * length [0..<height ?g] \<le> limit"
      by (simp add: mult.commute)
  qed
  then show ?thesis by (simp add: scan_def Let_def mult.commute)
qed

section \<open>The extraction\<close>

lemma first_occurrences_snoc:
  "first_occurrences (xs @ [x]) =
     (if x \<in> set xs then first_occurrences xs else first_occurrences xs @ [x])"
  by (simp add: first_occurrences_def)

lemma first_occurrences_Nil [simp]: "first_occurrences [] = []"
  by (simp add: first_occurrences_def)

lemma set_first_occurrences [simp]: "set (first_occurrences xs) = set xs"
  by (simp add: first_occurrences_def)

lemma distinct_first_occurrences [simp]: "distinct (first_occurrences xs)"
  by (simp add: first_occurrences_def)

lemma extracted_snoc:
  assumes "\<forall>a\<in>set roots. id' (h a) = int a" and "id' (h r) = int r"
  shows "extracted h (roots @ [r]) =
     (if id' (h r) \<in> fst (extracted h roots) then extracted h roots
      else if name (h r) \<noteq> None
        then (insert (id' (h r)) (fst (extracted h roots)),
              fst (snd (extracted h roots)) @ [r], snd (snd (extracted h roots)))
      else if total_chairs (h r) > 0
        then (insert (id' (h r)) (fst (extracted h roots)), fst (snd (extracted h roots)),
              snd (snd (extracted h roots)) @ [warning_message (id' (h r)) (total_chairs (h r))])
      else (insert (id' (h r)) (fst (extracted h roots)), fst (snd (extracted h roots)),
            snd (snd (extracted h roots))))"
proof -
  from assms have mem: "id' (h r) \<in> (\<lambda>a. id' (h a)) ` set roots \<longleftrightarrow> r \<in> set roots"
    by (auto simp: image_iff)
  show ?thesis
  proof (cases "r \<in> set roots")
    case True
    with mem show ?thesis
      by (auto simp: extracted_def first_occurrences_snoc)
  next
    case False
    with mem show ?thesis
      by (simp add: extracted_def first_occurrences_snoc)
  qed
qed

lemma extract_cell_None [simp]: "extract_cell limit None st = Inr st"
  by (cases st) (simp add: extract_cell_def)

lemma extract_cell_step:
  assumes hi: "heap_inv B n h0" and lim: "B \<le> limit" and c: "compressed h0 h"
    and rg: "\<forall>a\<in>set roots. 1 \<le> a \<and> a \<le> n" and cr: "1 \<le> cl" "cl \<le> n"
  shows "\<exists>h' r. extract_cell limit (Some cl) (h, extracted h0 roots) =
                  Inr (h', extracted h0 (roots @ [r])) \<and>
           compressed h0 h' \<and> root_of h0 cl r \<and> 1 \<le> r \<and> r \<le> n"
proof -
  from hi c have hih: "heap_inv B n h" by (rule heap_inv_compressed)
  from heap_inv_exists_final [OF hih lim] obtain h1 r
    where f: "final limit h cl = Inr (h1, r)" by blast
  from f have rr: "root_of h cl r" and c1: "compressed h h1" by (simp_all add: final_compresses)
  from c rr have r0: "root_of h0 cl r" by (simp add: compressed_root_of)
  from c c1 have c01: "compressed h0 h1" by (rule compressed_trans)
  from heap_inv_final(3) [OF hih f] cr have rrange: "1 \<le> r" "r \<le> n" by simp_all
  from hi have ids: "\<And>a. 1 \<le> a \<Longrightarrow> a \<le> n \<Longrightarrow> id' (h0 a) = int a"
    by (simp add: heap_inv_def)
  from compressed_fields [OF c01, of r]
  have fl: "id' (h1 r) = id' (h0 r)" "name (h1 r) = name (h0 r)" "chairs (h1 r) = chairs (h0 r)"
    by simp_all
  have tc: "sum_list (map (chairs (h0 r)) CHAIR_TYPES) = total_chairs (h0 r)"
    by (simp add: total_chairs_def)
  from rg ids have a1: "\<forall>a\<in>set roots. id' (h0 a) = int a" by simp
  from rrange ids have a2: "id' (h0 r) = int r" by simp
  obtain seen rooms err where e: "extracted h0 roots = (seen, rooms, err)"
    by (cases "extracted h0 roots")
  have "extract_cell limit (Some cl) (h, extracted h0 roots) = Inr (h1, extracted h0 (roots @ [r]))"
    unfolding extracted_snoc [OF a1 a2] e
    by (simp add: extract_cell_def f fl tc Let_def)
  with c01 r0 rrange show ?thesis by blast
qed

lemma extract_cells:
  assumes hi: "heap_inv B n h0" and lim: "B \<le> limit"
  shows "compressed h0 h \<Longrightarrow> \<forall>a\<in>set roots. 1 \<le> a \<and> a \<le> n \<Longrightarrow>
         \<forall>c. Some c \<in> set cs \<longrightarrow> 1 \<le> c \<and> c \<le> n \<Longrightarrow>
         \<exists>h' rs. for_each (extract_cell limit) cs (h, extracted h0 roots) =
                   Inr (h', extracted h0 (roots @ rs)) \<and>
           compressed h0 h' \<and>
           list_all2 (root_of h0)
             (concat (map (\<lambda>cell. case cell of None \<Rightarrow> [] | Some c \<Rightarrow> [c]) cs)) rs"
proof (induction cs arbitrary: h roots)
  case Nil
  have "for_each (extract_cell limit) [] (h, extracted h0 roots) = Inr (h, extracted h0 (roots @ []))"
    by simp
  with Nil.prems(1) show ?case by (intro exI [of _ h] exI [of _ "[]"]) simp
next
  case (Cons cell cs)
  show ?case
  proof (cases cell)
    case None
    from Cons.prems(3) have "\<forall>c. Some c \<in> set cs \<longrightarrow> 1 \<le> c \<and> c \<le> n" by simp
    from Cons.IH [OF Cons.prems(1,2) this] obtain h' rs
      where "for_each (extract_cell limit) cs (h, extracted h0 roots) =
               Inr (h', extracted h0 (roots @ rs))"
        and "compressed h0 h'"
        and "list_all2 (root_of h0)
               (concat (map (\<lambda>cell. case cell of None \<Rightarrow> [] | Some c \<Rightarrow> [c]) cs)) rs"
      by blast
    with None show ?thesis by auto
  next
    case (Some cl)
    with Cons.prems(3) have cr: "1 \<le> cl" "cl \<le> n" by simp_all
    from extract_cell_step [OF hi lim Cons.prems(1,2) cr] obtain h1 r
      where st: "extract_cell limit (Some cl) (h, extracted h0 roots) =
                   Inr (h1, extracted h0 (roots @ [r]))"
        and c1: "compressed h0 h1" and r0: "root_of h0 cl r" and rr: "1 \<le> r \<and> r \<le> n"
      by blast
    from Cons.prems(2) rr have rg: "\<forall>a\<in>set (roots @ [r]). 1 \<le> a \<and> a \<le> n" by simp
    from Cons.prems(3) have "\<forall>c. Some c \<in> set cs \<longrightarrow> 1 \<le> c \<and> c \<le> n" by simp
    from Cons.IH [OF c1 rg this] obtain h' rs
      where a: "for_each (extract_cell limit) cs (h1, extracted h0 (roots @ [r])) =
               Inr (h', extracted h0 ((roots @ [r]) @ rs))"
        and b: "compressed h0 h'"
        and d: "list_all2 (root_of h0)
               (concat (map (\<lambda>cell. case cell of None \<Rightarrow> [] | Some c \<Rightarrow> [c]) cs)) rs"
      by blast
    from st a Some have "for_each (extract_cell limit) (cell # cs) (h, extracted h0 roots) =
        Inr (h', extracted h0 (roots @ (r # rs)))" by simp
    moreover from d r0 Some have "list_all2 (root_of h0)
        (concat (map (\<lambda>cell. case cell of None \<Rightarrow> [] | Some c \<Rightarrow> [c]) (cell # cs))) (r # rs)"
      by simp
    ultimately show ?thesis using b by blast
  qed
qed

lemma extracted_Nil: "extracted h [] = ({}, [], [])"
  by (simp add: extracted_def)

lemma extract_unique_rooms_spec:
  assumes hi: "heap_inv B n h0" and lim: "B \<le> limit"
    and rg: "\<forall>row\<in>set (cells g). \<forall>c. Some c \<in> set row \<longrightarrow> 1 \<le> c \<and> c \<le> n"
  shows "\<exists>h' roots. extract_unique_rooms limit g h0 =
                     Inr (h', fst (snd (extracted h0 roots)), snd (snd (extracted h0 roots))) \<and>
           compressed h0 h' \<and> list_all2 (root_of h0) (assigned g) roots"
proof -
  from rg have "\<forall>c. Some c \<in> set (concat (cells g)) \<longrightarrow> 1 \<le> c \<and> c \<le> n" by auto
  from extract_cells [OF hi lim compressed_refl _ this, of "[]"] obtain h' rs
    where a: "for_each (extract_cell limit) (concat (cells g)) (h0, extracted h0 []) =
               Inr (h', extracted h0 rs)"
      and b: "compressed h0 h'" and c: "list_all2 (root_of h0) (assigned g) rs"
    by (auto simp: assigned_def)
  obtain seen rooms err where e: "extracted h0 rs = (seen, rooms, err)"
    by (cases "extracted h0 rs")
  from a e have "extract_unique_rooms limit g h0 = Inr (h', rooms, err)"
    by (simp add: extract_unique_rooms_def for_each_concat extracted_Nil)
  with e b c show ?thesis by (intro exI [of _ h'] exI [of _ rs]) simp
qed

section \<open>What parse returns\<close>

lemma list_all2_root_of:
  "list_all2 (root_of h) cs rs \<Longrightarrow> a \<in> set rs \<Longrightarrow> merged_into (h a) = None"
  by (induction rule: list_all2_induct) (auto dest: root_of_is_root)

lemma set_assigned: "c \<in> set (assigned g) \<longleftrightarrow> (\<exists>row\<in>set (cells g). Some c \<in> set row)"
proof -
  have "c \<in> set (case cell of None \<Rightarrow> [] | Some c \<Rightarrow> [c]) \<longleftrightarrow> cell = Some c" for cell :: "addr option"
    by (cases cell) auto
  then show ?thesis by (simp add: assigned_def)
qed

lemma Grid_no_lines: "height (Grid text) = 0 \<Longrightarrow> cells (Grid text) = []"
  by (simp add: Grid_def Let_def)

lemma total_chairs_pos:
  assumes "\<forall>t. 0 \<le> chairs r t"
  shows "total_chairs r > 0 \<longleftrightarrow> (\<exists>t. chairs r t \<noteq> 0)"
proof
  assume pos: "total_chairs r > 0"
  show "\<exists>t. chairs r t \<noteq> 0"
  proof (rule ccontr)
    assume "\<not> (\<exists>t. chairs r t \<noteq> 0)"
    then have "\<And>t. chairs r t = 0" by simp
    then have "total_chairs r = 0" by (simp add: total_chairs_def CHAIR_TYPES_def)
    with pos show False by simp
  qed
next
  assume "\<exists>t. chairs r t \<noteq> 0"
  then obtain t where t: "chairs r t \<noteq> 0" by blast
  from assms have "0 \<le> chairs r W" "0 \<le> chairs r P" "0 \<le> chairs r S" "0 \<le> chairs r C"
    by simp_all
  moreover from t assms [rule_format, of t] have "0 < chairs r t" by simp
  ultimately show "total_chairs r > 0"
    by (cases t) (simp_all add: total_chairs_def CHAIR_TYPES_def)
qed

lemma parse_spec:
  assumes "height (Grid text) * width (Grid text) < limit"
  shows "\<exists>s roots. scan limit text = Inr s \<and>
           scan_inv (Grid text) (Suc (height (Grid text) * width (Grid text))) s \<and>
           list_all2 (root_of (heap s)) (assigned (grid s)) roots \<and>
           parse limit text =
             Inr (map (heap s) (fst (snd (extracted (heap s) roots))),
                  snd (snd (extracted (heap s) roots)))"
proof -
  let ?B = "Suc (height (Grid text) * width (Grid text))"
  from scan_inv_scan [OF assms] obtain s
    where sc: "scan limit text = Inr s" and inv: "scan_inv (Grid text) ?B s" by blast
  from inv have hi: "heap_inv ?B (room_counter s) (heap s)"
    and rg: "\<forall>row\<in>set (cells (grid s)). \<forall>c. Some c \<in> set row \<longrightarrow> 1 \<le> c \<and> c \<le> room_counter s"
    by (simp_all add: scan_inv_def)
  from assms have lim: "?B \<le> limit" by simp
  from extract_unique_rooms_spec [OF hi lim rg] obtain h' roots
    where ex: "extract_unique_rooms limit (grid s) (heap s) =
                 Inr (h', fst (snd (extracted (heap s) roots)), snd (snd (extracted (heap s) roots)))"
      and c: "compressed (heap s) h'"
      and la: "list_all2 (root_of (heap s)) (assigned (grid s)) roots" by blast
  obtain seen rooms err where e: "extracted (heap s) roots = (seen, rooms, err)"
    by (cases "extracted (heap s) roots")
  have same: "map h' (fst (snd (extracted (heap s) roots))) =
              map (heap s) (fst (snd (extracted (heap s) roots)))"
  proof (rule map_cong [OF refl])
    fix a assume "a \<in> set (fst (snd (extracted (heap s) roots)))"
    then have "a \<in> set roots" by (simp add: extracted_def)
    with la have "merged_into (heap s a) = None" by (rule list_all2_root_of)
    with c show "h' a = heap s a" by (rule compressed_root_unchanged)
  qed
  have "parse limit text =
          Inr (map (heap s) (fst (snd (extracted (heap s) roots))),
               snd (snd (extracted (heap s) roots)))"
  proof (cases "height (Grid text) = 0")
    case True
    with sc have "s = init_scanner (Grid text)" by (simp add: scan_def Let_def)
    with True have "assigned (grid s) = []"
      by (simp add: assigned_def init_scanner_def Grid_no_lines)
    with la have "roots = []" by simp
    with True show ?thesis by (simp add: parse_def extracted_def)
  next
    case False
    with sc ex same show ?thesis unfolding e by (simp add: parse_def)
  qed
  with sc inv la show ?thesis by (intro exI [of _ s] exI [of _ roots]) simp
qed

text \<open>
  With enough depth for the recursion of \<^verbatim>\<open>final\<close>, nothing else can go wrong: for every
  input text \<^verbatim>\<open>parse\<close> returns a list of rooms, each of which has a name, provided the
  depth available exceeds the number of cells of the grid.  On the empty string it
  returns the empty list and prints nothing, whatever the depth.
\<close>

theorem parse_total:
  "(height (Grid text) * width (Grid text) < limit \<longrightarrow>
      (\<exists>rooms err. parse limit text = Inr (rooms, err) \<and> list_all (\<lambda>r. name r \<noteq> None) rooms)) \<and>
   parse limit [] = Inr ([], [])"
proof (intro conjI impI)
  assume "height (Grid text) * width (Grid text) < limit"
  from parse_spec [OF this] obtain s roots
    where "scan limit text = Inr s" and p: "parse limit text =
             Inr (map (heap s) (fst (snd (extracted (heap s) roots))),
                  snd (snd (extracted (heap s) roots)))" by blast
  have "list_all (\<lambda>r. name r \<noteq> None) (map (heap s) (fst (snd (extracted (heap s) roots))))"
    by (simp add: extracted_def list_all_iff)
  with p show "\<exists>rooms err. parse limit text = Inr (rooms, err) \<and> list_all (\<lambda>r. name r \<noteq> None) rooms"
    by simp
next
  show "parse limit [] = Inr ([], [])"
    by (simp add: parse_def Grid_def splitlines_def)
qed

theorem parse_total_witness:
  "height (Grid ''W|(a)P'') * width (Grid ''W|(a)P'') < 7 \<and>
   (\<exists>rooms err. parse 7 ''W|(a)P'' = Inr (rooms, err) \<and> list_all (\<lambda>r. name r \<noteq> None) rooms) \<and>
   parse 7 [] = Inr ([], [])"
proof -
  have "height (Grid ''W|(a)P'') * width (Grid ''W|(a)P'') < 7" by code_simp
  with parse_total [of "''W|(a)P''" 7] show ?thesis by blast
qed

text \<open>
  C4.  With enough recursion depth, \<^verbatim>\<open>parse\<close> returns the following, where \<open>s\<close> is the
  state after the scan and \<open>roots\<close> are the roots of the rooms assigned to the cells, in
  row-major order: the rooms returned are the distinct roots that have a name, and
  the lines printed to the error stream are one warning for each distinct root that
  has no name and a nonzero chair count.  Two of these roots with the same id are the
  same room, so removing repeated ids removes repeated roots.  The returned rooms do
  not depend on the warnings.
\<close>

theorem parse_returns_named_roots:
  assumes "height (Grid text) * width (Grid text) < limit"
  shows "\<exists>s roots.
           scan limit text = Inr s \<and>
           list_all2 (root_of (heap s)) (assigned (grid s)) roots \<and>
           inj_on (\<lambda>a. id' (heap s a)) (set roots) \<and>
           parse limit text =
             Inr (map (heap s) (filter (\<lambda>a. name (heap s a) \<noteq> None) (first_occurrences roots)),
                  map (\<lambda>a. warning_message (id' (heap s a)) (total_chairs (heap s a)))
                    (filter (\<lambda>a. name (heap s a) = None \<and> (\<exists>t. chairs (heap s a) t \<noteq> 0))
                       (first_occurrences roots)))"
proof -
  from parse_spec [OF assms] obtain s roots
    where sc: "scan limit text = Inr s"
      and inv: "scan_inv (Grid text) (Suc (height (Grid text) * width (Grid text))) s"
      and la: "list_all2 (root_of (heap s)) (assigned (grid s)) roots"
      and p: "parse limit text =
             Inr (map (heap s) (fst (snd (extracted (heap s) roots))),
                  snd (snd (extracted (heap s) roots)))" by blast
  from inv have hi: "heap_inv (Suc (height (Grid text) * width (Grid text))) (room_counter s) (heap s)"
    and rg: "\<forall>row\<in>set (cells (grid s)). \<forall>c. Some c \<in> set row \<longrightarrow> 1 \<le> c \<and> c \<le> room_counter s"
    by (simp_all add: scan_inv_def)
  from hi have nonneg: "\<And>a. \<forall>t. 0 \<le> chairs (heap s a) t"
    and ids: "\<And>a. 1 \<le> a \<Longrightarrow> a \<le> room_counter s \<Longrightarrow> id' (heap s a) = int a"
    and cl: "closed (room_counter s) (heap s)"
    by (simp_all add: heap_inv_def)
  have pos: "(\<lambda>a. name (heap s a) = None \<and> total_chairs (heap s a) > 0) =
             (\<lambda>a. name (heap s a) = None \<and> (\<exists>t. chairs (heap s a) t \<noteq> 0))"
  proof (rule ext)
    fix a show "(name (heap s a) = None \<and> total_chairs (heap s a) > 0) =
                (name (heap s a) = None \<and> (\<exists>t. chairs (heap s a) t \<noteq> 0))"
      using total_chairs_pos [OF nonneg [of a]] by simp
  qed
  have "\<forall>c\<in>set (assigned (grid s)). 1 \<le> c \<and> c \<le> room_counter s"
    using rg set_assigned [of _ "grid s"] by blast
  with la have "\<forall>a\<in>set roots. 1 \<le> a \<and> a \<le> room_counter s"
  proof (induction rule: list_all2_induct)
    case Nil
    then show ?case by simp
  next
    case (Cons c cs r rs)
    from Cons.prems have "1 \<le> c" "c \<le> room_counter s" by simp_all
    from root_of_in_range [OF cl Cons.hyps(1) this] Cons show ?case by simp
  qed
  with ids have "\<forall>a\<in>set roots. id' (heap s a) = int a" by simp
  then have "inj_on (\<lambda>a. id' (heap s a)) (set roots)"
    by (auto simp: inj_on_def)
  with sc la p show ?thesis
    unfolding extracted_def fst_conv snd_conv pos
    by (intro exI [of _ s] exI [of _ roots]) simp
qed

theorem parse_returns_named_roots_witness:
  "height (Grid ''W|(a)P'') * width (Grid ''W|(a)P'') < 7 \<and>
   (\<exists>s roots.
      scan 7 ''W|(a)P'' = Inr s \<and>
      list_all2 (root_of (heap s)) (assigned (grid s)) roots \<and>
      inj_on (\<lambda>a. id' (heap s a)) (set roots) \<and>
      parse 7 ''W|(a)P'' =
        Inr (map (heap s) (filter (\<lambda>a. name (heap s a) \<noteq> None) (first_occurrences roots)),
             map (\<lambda>a. warning_message (id' (heap s a)) (total_chairs (heap s a)))
               (filter (\<lambda>a. name (heap s a) = None \<and> (\<exists>t. chairs (heap s a) t \<noteq> 0))
                  (first_occurrences roots)))) \<and>
   map_sum id (\<lambda>(rooms, err). (map snapshot rooms, err)) (parse 7 ''W|(a)P'') =
     Inr ([(2, Some ''a'', [0, 1, 0, 0], None)],
          [''WARNING: Unnamed room (id=1) contains 1 chair(s) - not included in output''])"
proof -
  have h: "height (Grid ''W|(a)P'') * width (Grid ''W|(a)P'') < 7" by code_simp
  have e: "map_sum id (\<lambda>(rooms, err). (map snapshot rooms, err)) (parse 7 ''W|(a)P'') =
     Inr ([(2, Some ''a'', [0, 1, 0, 0], None)],
          [''WARNING: Unnamed room (id=1) contains 1 chair(s) - not included in output''])"
    by code_simp
  from h e parse_returns_named_roots [OF h] show ?thesis by (intro conjI)
qed

section \<open>The states a scan goes through\<close>

lemma scan_cell_floor:
  "\<not> is_wall (grid s) (int x) (int y) \<Longrightarrow>
   scan_cell limit y x s =
     (case enter_cell limit y x s of
        Inl e \<Rightarrow> Inl e
      | Inr (s3, cur) \<Rightarrow>
          (case count_chair limit (get_char (grid s) (int x) (int y)) cur s3 of
             Inl e \<Rightarrow> Inl e
           | Inr s4 \<Rightarrow> track_name limit (get_char (grid s) (int x) (int y)) cur s4))"
  by (simp add: scan_cell_def enter_cell_def Let_def split: prod.splits sum.splits)

lemma scan_cell_wall:
  "is_wall (grid s) (int x) (int y) \<Longrightarrow>
   scan_cell limit y x s = Inr (s\<lparr>current_room := None, name_buffer := None\<rparr>)"
  by (simp add: scan_cell_def)

lemma scan_prefix_Suc:
  "scan_prefix limit text y x = Inr s \<Longrightarrow> scan_prefix limit text y (Suc x) = scan_cell limit y x s"
  by (auto simp: scan_prefix_def for_each_append split: sum.splits)

lemma scan_prefix_inv:
  assumes lim: "height (Grid text) * width (Grid text) < limit"
    and y: "y < height (Grid text)" and x: "x \<le> width (Grid text)"
  shows "\<exists>s. scan_prefix limit text y x = Inr s \<and>
           scan_inv (Grid text) (Suc (width (Grid text) * y + x)) s"
proof -
  let ?g = "Grid text"
  from y have "width ?g * Suc y \<le> width ?g * height ?g" by (intro mult_le_mono2) simp
  with x lim have bound: "Suc (width ?g * y + x) \<le> limit" by (simp add: mult.commute)
  have "\<exists>s'. for_each (scan_row limit) [0..<y] (init_scanner ?g) = Inr s' \<and>
          scan_inv ?g (1 + width ?g * length [0..<y]) s'"
  proof (rule for_each_inv [where N = limit])
    show "\<exists>s'. scan_row limit y' s = Inr s' \<and> scan_inv ?g (B + width ?g) s'"
      if "y' \<in> set [0..<y]" "scan_inv ?g B s" "B + width ?g \<le> limit" for y' B s
      using scan_row_inv [of ?g B s limit y'] that y by simp
    show "scan_inv ?g 1 (init_scanner ?g)" by (rule scan_inv_init)
    from bound show "1 + width ?g * length [0..<y] \<le> limit" by simp
  qed
  then obtain s1 where r: "for_each (scan_row limit) [0..<y] (init_scanner ?g) = Inr s1"
    and i1: "scan_inv ?g (Suc (width ?g * y)) s1" by auto
  let ?s = "s1\<lparr>current_room := None, name_buffer := None\<rparr>"
  from i1 have i2: "scan_inv ?g (Suc (width ?g * y)) ?s" by (simp add: scan_inv_def)
  have "\<exists>s'. for_each (scan_cell limit y) [0..<x] ?s = Inr s' \<and>
          scan_inv ?g (Suc (width ?g * y) + 1 * length [0..<x]) s'"
  proof (rule for_each_inv [where N = limit])
    show "\<exists>s'. scan_cell limit y x' s = Inr s' \<and> scan_inv ?g (B + 1) s'"
      if "x' \<in> set [0..<x]" "scan_inv ?g B s" "B + 1 \<le> limit" for x' B s
      using scan_cell_inv [of ?g B s limit x' y] that x y by simp
    show "scan_inv ?g (Suc (width ?g * y)) ?s" by (rule i2)
    from bound show "Suc (width ?g * y) + 1 * length [0..<x] \<le> limit" by simp
  qed
  with r show ?thesis by (simp add: scan_prefix_def)
qed

lemma scan_prefix_step:
  assumes lim: "height (Grid text) * width (Grid text) < limit"
    and y: "y < height (Grid text)" and x: "x < width (Grid text)"
    and s: "scan_prefix limit text y x = Inr s"
  shows "scan_inv (Grid text) (Suc (width (Grid text) * y + x)) s"
    and "Suc (Suc (width (Grid text) * y + x)) \<le> limit"
    and "lines (grid s) = lines (Grid text)"
proof -
  from scan_prefix_inv [OF lim y, of x] x s
  show i: "scan_inv (Grid text) (Suc (width (Grid text) * y + x)) s" by auto
  from y have "width (Grid text) * Suc y \<le> width (Grid text) * height (Grid text)"
    by (intro mult_le_mono2) simp
  with x lim show "Suc (Suc (width (Grid text) * y + x)) \<le> limit" by (simp add: mult.commute)
  from i show "lines (grid s) = lines (Grid text)" by (simp add: scan_inv_def)
qed

section \<open>How the scan changes the roots\<close>

lemma root_of_same_links:
  assumes "\<And>x. merged_into (h' x) = merged_into (h x)"
  shows "root_of h' r a \<longleftrightarrow> root_of h r a"
proof
  assume "root_of h' r a"
  then show "root_of h r a"
    by (induction rule: root_of.induct) (auto simp: assms intro: root_of.intros)
next
  assume "root_of h r a"
  then show "root_of h' r a"
    by (induction rule: root_of.induct) (auto simp: assms [symmetric] intro: root_of.intros)
qed

lemma root_of_merge:
  assumes ab: "a \<noteq> b" and ra: "merged_into (h a) = None" and rb: "merged_into (h b) = None"
  shows "root_of (fst (merge_with h a b)) r x \<longleftrightarrow> (if root_of h r b then x = a else root_of h r x)"
proof -
  let ?h = "fst (merge_with h a b)"
  have links: "merged_into (?h r) = (if r = b then Some a else merged_into (h r))" for r
    using ab by (simp add: merge_with_distinct)
  from links ra ab have aa: "root_of ?h a a" by (intro root_of.root_self) simp
  have fwd: "root_of ?h r (if y = b then a else y)" if "root_of h r y" for r y
    using that
  proof (induction rule: root_of.induct)
    case (root_self r)
    show ?case
    proof (cases "r = b")
      case True
      with links aa show ?thesis by (auto intro: root_of.root_step)
    next
      case False
      with links root_self show ?thesis by (auto intro: root_of.root_self)
    qed
  next
    case (root_step r p y)
    from root_step.hyps(1) rb have "r \<noteq> b" by auto
    with links root_step.hyps(1) have "merged_into (?h r) = Some p" by simp
    then show ?case using root_step.IH by (rule root_of.root_step)
  qed
  have bwd: "(root_of h r b \<and> x = a) \<or> (root_of h r x \<and> x \<noteq> b)" if "root_of ?h r x" for r x
    using that
  proof (induction rule: root_of.induct)
    case (root_self r)
    from root_self links have "r \<noteq> b" by (auto split: if_splits)
    with root_self links have "merged_into (h r) = None" by simp
    with \<open>r \<noteq> b\<close> show ?case by (auto intro: root_of.root_self)
  next
    case (root_step r p x)
    show ?case
    proof (cases "r = b")
      case True
      with root_step.hyps(1) links have "p = a" by simp
      with root_step.hyps(2) aa have "x = a" by (auto dest: root_of_fun)
      moreover from rb have "root_of h b b" by (rule root_of.root_self)
      ultimately show ?thesis using True by simp
    next
      case False
      with root_step.hyps(1) links have "merged_into (h r) = Some p" by simp
      with root_step.IH show ?thesis by (auto intro: root_of.root_step)
    qed
  qed
  show ?thesis
  proof (cases "root_of h r b")
    case True
    from fwd [OF True] have "root_of ?h r a" by simp
    then have "root_of ?h r x \<longleftrightarrow> x = a" by (auto dest: root_of_fun)
    with True show ?thesis by simp
  next
    case False
    have "root_of ?h r x \<longleftrightarrow> root_of h r x"
    proof
      assume "root_of ?h r x"
      from bwd [OF this] False show "root_of h r x" by simp
    next
      assume rx: "root_of h r x"
      with False have "x \<noteq> b" by auto
      with fwd [OF rx] show "root_of ?h r x" by simp
    qed
    with False show ?thesis by simp
  qed
qed

lemma final_same_roots:
  "final n h r = Inr (h', a) \<Longrightarrow> root_of h' x b \<longleftrightarrow> root_of h x b"
  by (simp add: final_compresses compressed_root_of)

lemma open_room_effect:
  assumes inv: "scan_inv g0 B s" and o: "open_room s = (s1, cur)"
  shows "\<forall>r. merged_into (heap s1 r) = merged_into (heap s r)"
    and "current_room s = None \<Longrightarrow>
           cur = Suc (room_counter s) \<and> room_counter s1 = Suc (room_counter s) \<and>
           merged_into (heap s cur) = None \<and> (\<forall>r. merged_into (heap s r) \<noteq> Some cur)"
    and "current_room s = Some c \<Longrightarrow> cur = c \<and> s1 = s"
proof -
  from inv have cl: "closed (room_counter s) (heap s)" by (simp add: scan_inv_def heap_inv_def)
  have fresh: "merged_into (heap s (Suc (room_counter s))) = None"
  proof (cases "merged_into (heap s (Suc (room_counter s)))")
    case (Some p)
    with cl have "Suc (room_counter s) \<le> room_counter s" unfolding closed_def by blast
    then show ?thesis by simp
  qed simp
  have notarget: "merged_into (heap s r) \<noteq> Some (Suc (room_counter s))" for r
  proof
    assume "merged_into (heap s r) = Some (Suc (room_counter s))"
    with cl have "Suc (room_counter s) \<le> room_counter s" unfolding closed_def by blast
    then show False by simp
  qed
  show "\<forall>r. merged_into (heap s1 r) = merged_into (heap s r)"
    using o fresh by (auto simp: open_room_def Let_def Room_def split: option.splits)
  show "cur = Suc (room_counter s) \<and> room_counter s1 = Suc (room_counter s) \<and>
        merged_into (heap s cur) = None \<and> (\<forall>r. merged_into (heap s r) \<noteq> Some cur)"
    if "current_room s = None"
    using that o fresh notarget by (auto simp: open_room_def Let_def)
  show "cur = c \<and> s1 = s" if "current_room s = Some c"
    using that o by (simp add: open_room_def)
qed

lemma connect_above_effect:
  assumes "connect_above limit x y cur s = Inr s'"
  shows "grid s' = grid s \<and> current_room s' = current_room s \<and>
         name_buffer s' = name_buffer s \<and> room_counter s' = room_counter s"
    and "get_connected_room_above (grid s) x y = None \<Longrightarrow> heap s' = heap s"
    and "get_connected_room_above (grid s) x y = Some ra \<Longrightarrow>
         \<exists>fa fc. root_of (heap s) ra fa \<and> root_of (heap s) cur fc \<and>
           (\<forall>r a. root_of (heap s') r a \<longleftrightarrow>
                    (if root_of (heap s) r fc then a = fa else root_of (heap s) r a))"
proof -
  show "grid s' = grid s \<and> current_room s' = current_room s \<and>
         name_buffer s' = name_buffer s \<and> room_counter s' = room_counter s"
    using assms by (auto simp: connect_above_def split: option.splits sum.splits if_splits)
  show "heap s' = heap s" if "get_connected_room_above (grid s) x y = None"
    using assms that by (simp add: connect_above_def)
  show "\<exists>fa fc. root_of (heap s) ra fa \<and> root_of (heap s) cur fc \<and>
           (\<forall>r a. root_of (heap s') r a \<longleftrightarrow>
                    (if root_of (heap s) r fc then a = fa else root_of (heap s) r a))"
    if ab: "get_connected_room_above (grid s) x y = Some ra"
  proof -
    from assms ab obtain h1 fa h2 fc
      where f1: "final limit (heap s) ra = Inr (h1, fa)"
        and f2: "final limit h1 cur = Inr (h2, fc)"
        and h': "heap s' = (if fa \<noteq> fc then fst (merge_with h2 fa fc) else h2)"
      by (auto simp: connect_above_def split: sum.splits if_splits)
    from f1 have r1: "root_of (heap s) ra fa" by (simp add: final_compresses)
    from f2 have "root_of h1 cur fc" by (simp add: final_compresses)
    with f1 have r2: "root_of (heap s) cur fc" by (simp add: final_same_roots)
    have same: "root_of h2 r a \<longleftrightarrow> root_of (heap s) r a" for r a
      using f1 f2 by (simp add: final_same_roots)
    have "root_of (heap s') r a \<longleftrightarrow> (if root_of (heap s) r fc then a = fa else root_of (heap s) r a)"
      for r a
    proof (cases "fa = fc")
      case True
      with h' have "heap s' = h2" by simp
      moreover have "root_of (heap s) r a \<longleftrightarrow> a = fc" if "root_of (heap s) r fc"
        using that by (auto dest: root_of_fun)
      ultimately show ?thesis using True same by auto
    next
      case False
      from r1 r2 same have "root_of h2 ra fa" "root_of h2 cur fc" by simp_all
      then have "merged_into (h2 fa) = None" "merged_into (h2 fc) = None"
        by (auto dest: root_of_is_root)
      from root_of_merge [OF False this, of r a] False h' same show ?thesis by simp
    qed
    with r1 r2 show ?thesis by blast
  qed
qed

lemma count_chair_effect:
  assumes "count_chair limit ch cur s = Inr s'"
  shows "grid s' = grid s \<and> current_room s' = current_room s \<and>
         name_buffer s' = name_buffer s \<and> room_counter s' = room_counter s"
    and "root_of (heap s') x b \<longleftrightarrow> root_of (heap s) x b"
    and "name (heap s' a) = name (heap s a)"
    and "chair_key ch = Some t \<Longrightarrow>
         \<exists>r. root_of (heap s) cur r \<and>
              chairs (heap s' r) = (chairs (heap s r))(t := chairs (heap s r) t + 1) \<and>
              (\<forall>a. a \<noteq> r \<longrightarrow> chairs (heap s' a) = chairs (heap s a))"
    and "chair_key ch = None \<Longrightarrow> chairs (heap s' a) = chairs (heap s a)"
proof -
  show "grid s' = grid s \<and> current_room s' = current_room s \<and>
         name_buffer s' = name_buffer s \<and> room_counter s' = room_counter s"
    using assms by (auto simp: count_chair_def split: sum.splits option.splits if_splits)
  show l: "root_of (heap s') x b \<longleftrightarrow> root_of (heap s) x b"
  proof (cases "ch \<in> CHAIR_CHARS")
    case False
    with assms show ?thesis by (simp add: count_chair_def)
  next
    case True
    with assms obtain h1 r u where f: "final limit (heap s) cur = Inr (h1, r)"
      and h': "heap s' = h1(r := (h1 r)\<lparr>chairs := (chairs (h1 r))(u := chairs (h1 r) u + 1)\<rparr>)"
      by (auto simp: count_chair_def split: sum.splits option.splits)
    have "root_of (heap s') x b \<longleftrightarrow> root_of h1 x b"
      by (rule root_of_same_links) (simp add: h')
    with f show ?thesis by (simp add: final_same_roots)
  qed
  show "name (heap s' a) = name (heap s a)"
    using assms compressed_fields [of "heap s" _ a]
    by (auto simp: count_chair_def final_compresses split: sum.splits option.splits if_splits)
  show "\<exists>r. root_of (heap s) cur r \<and>
              chairs (heap s' r) = (chairs (heap s r))(t := chairs (heap s r) t + 1) \<and>
              (\<forall>a. a \<noteq> r \<longrightarrow> chairs (heap s' a) = chairs (heap s a))"
    if t: "chair_key ch = Some t"
  proof -
    from t chair_key_iff [of ch] have "ch \<in> CHAIR_CHARS" by simp
    with assms t obtain h1 r where f: "final limit (heap s) cur = Inr (h1, r)"
      and h': "heap s' = h1(r := (h1 r)\<lparr>chairs := (chairs (h1 r))(t := chairs (h1 r) t + 1)\<rparr>)"
      by (auto simp: count_chair_def split: sum.splits)
    from f have rr: "root_of (heap s) cur r" and c: "compressed (heap s) h1"
      by (simp_all add: final_compresses)
    from compressed_fields [OF c] have "chairs (h1 a) = chairs (heap s a)" for a by simp
    with h' rr show ?thesis by (intro exI [of _ r]) simp
  qed
  show "chairs (heap s' a) = chairs (heap s a)" if "chair_key ch = None"
  proof -
    from that chair_key_iff [of ch] have "ch \<notin> CHAIR_CHARS" by simp
    with assms show ?thesis by (simp add: count_chair_def)
  qed
qed

lemma track_name_effect:
  assumes "track_name limit ch cur s = Inr s'"
  shows "grid s' = grid s \<and> current_room s' = current_room s \<and> room_counter s' = room_counter s"
    and "root_of (heap s') x b \<longleftrightarrow> root_of (heap s) x b"
    and "chairs (heap s' a) = chairs (heap s a)"
    and "ch = CHR ''('' \<Longrightarrow> name_buffer s' = Some [] \<and> heap s' = heap s"
    and "ch = CHR '')'' \<Longrightarrow> name_buffer s = Some buf \<Longrightarrow>
         name_buffer s' = None \<and>
         (\<exists>r. root_of (heap s) cur r \<and> name (heap s' r) = Some buf \<and>
              (\<forall>a. a \<noteq> r \<longrightarrow> name (heap s' a) = name (heap s a)))"
    and "ch \<noteq> CHR ''('' \<Longrightarrow> ch \<noteq> CHR '')'' \<Longrightarrow> name_buffer s = Some buf \<Longrightarrow>
         name_buffer s' = Some (buf @ [ch]) \<and> heap s' = heap s"
proof -
  show "grid s' = grid s \<and> current_room s' = current_room s \<and> room_counter s' = room_counter s"
    using assms by (auto simp: track_name_def split: sum.splits option.splits if_splits)
  show "root_of (heap s') x b \<longleftrightarrow> root_of (heap s) x b"
  proof (cases "ch \<noteq> CHR ''('' \<and> ch = CHR '')'' \<and> name_buffer s \<noteq> None")
    case False
    with assms have "heap s' = heap s"
      by (auto simp: track_name_def split: option.splits if_splits)
    then show ?thesis by simp
  next
    case True
    with assms obtain h1 r where f: "final limit (heap s) cur = Inr (h1, r)"
      and h': "heap s' = h1(r := (h1 r)\<lparr>name := name_buffer s\<rparr>)"
      by (auto simp: track_name_def split: sum.splits)
    have "root_of (heap s') x b \<longleftrightarrow> root_of h1 x b"
      by (rule root_of_same_links) (simp add: h')
    with f show ?thesis by (simp add: final_same_roots)
  qed
  show "chairs (heap s' a) = chairs (heap s a)"
    using assms compressed_fields [of "heap s" _ a]
    by (auto simp: track_name_def final_compresses split: sum.splits option.splits if_splits)
  show "name_buffer s' = Some [] \<and> heap s' = heap s" if "ch = CHR ''(''"
    using assms that by (auto simp: track_name_def)
  show "name_buffer s' = None \<and>
         (\<exists>r. root_of (heap s) cur r \<and> name (heap s' r) = Some buf \<and>
              (\<forall>a. a \<noteq> r \<longrightarrow> name (heap s' a) = name (heap s a)))"
    if "ch = CHR '')''" "name_buffer s = Some buf"
  proof -
    from assms that obtain h1 r where f: "final limit (heap s) cur = Inr (h1, r)"
      and s': "s' = s\<lparr>heap := h1(r := (h1 r)\<lparr>name := Some buf\<rparr>), name_buffer := None\<rparr>"
      by (auto simp: track_name_def split: sum.splits)
    from f have rr: "root_of (heap s) cur r" and c: "compressed (heap s) h1"
      by (simp_all add: final_compresses)
    from compressed_fields [OF c] have "name (h1 a) = name (heap s a)" for a by simp
    with s' rr show ?thesis by (intro conjI exI [of _ r]) simp_all
  qed
  show "name_buffer s' = Some (buf @ [ch]) \<and> heap s' = heap s"
    if "ch \<noteq> CHR ''(''" "ch \<noteq> CHR '')''" "name_buffer s = Some buf"
    using assms that by (auto simp: track_name_def)
qed

lemma get_char_same_lines:
  "lines g = lines g' \<Longrightarrow> height g = height g' \<Longrightarrow> get_char g x y = get_char g' x y"
  by (simp add: get_char_def)

lemma root_of_last_link:
  "root_of h r a \<Longrightarrow> r = a \<or> (\<exists>q. merged_into (h q) = Some a)"
  by (induction rule: root_of.induct) auto

lemma get_room_updated:
  assumes "length (cells g) = height g" and "\<forall>row\<in>set (cells g). length row = width g"
    and "y < height g" and "x < width g"
  shows "get_room (g\<lparr>cells := (cells g)[y := (cells g ! y)[x := Some c]]\<rparr>) (int x) (int y) = Some c"
proof -
  from assms(1,3) have "cells g ! y \<in> set (cells g)" by simp
  with assms(2,4) have "x < length (cells g ! y)" by simp
  with assms(1,3,4) show ?thesis by (simp add: get_room_def)
qed

lemma get_room_in_range:
  assumes "scan_inv g0 B s" and "get_room (grid s) x y = Some c"
  shows "1 \<le> c \<and> c \<le> room_counter s"
proof -
  from assms have "\<exists>row\<in>set (cells (grid s)). Some c \<in> set row"
    by (intro get_room_in_cells [of "grid s" x y]) (simp_all add: scan_inv_def)
  with assms(1) show ?thesis by (auto simp: scan_inv_def)
qed

lemma enter_cell_effect:
  assumes inv: "scan_inv g0 B s" and lim: "B \<le> limit"
    and x: "x < width g0" and y: "y < height g0"
  shows "\<exists>s3 cur.
           enter_cell limit y x s = Inr (s3, cur) \<and> scan_inv g0 (Suc B) s3 \<and>
           current_room s3 = Some cur \<and> name_buffer s3 = name_buffer s \<and>
           get_room (grid s3) (int x) (int y) = Some cur \<and>
           (case current_room s of
              None \<Rightarrow> cur = Suc (room_counter s) \<and> merged_into (heap s cur) = None \<and>
                       (\<forall>r. merged_into (heap s r) \<noteq> Some cur)
            | Some c \<Rightarrow> cur = c) \<and>
           (case get_connected_room_above (grid s) (int x) (int y) of
              None \<Rightarrow> \<forall>r a. root_of (heap s3) r a \<longleftrightarrow> root_of (heap s) r a
            | Some ra \<Rightarrow>
                \<exists>fa fc. root_of (heap s) ra fa \<and> root_of (heap s) cur fc \<and>
                  (\<forall>r a. root_of (heap s3) r a \<longleftrightarrow>
                           (if root_of (heap s) r fc then a = fa else root_of (heap s) r a)))"
proof -
  obtain s1 cur where o: "open_room s = (s1, cur)" by (cases "open_room s")
  note o1 = open_room_inv [OF inv o]
  note o2 = open_room_effect [OF inv o]
  have r1: "root_of (heap s1) r a \<longleftrightarrow> root_of (heap s) r a" for r a
    by (rule root_of_same_links) (simp add: o2(1))
  from connect_above_inv [OF o1(1) o1(3,4) lim, of "int x" "int y"] obtain h2
    where c: "connect_above limit (int x) (int y) cur s1 = Inr (s1\<lparr>heap := h2\<rparr>)"
      and h2: "heap_inv (Suc B) (room_counter s1) h2" by blast
  note ce = connect_above_effect [OF c]
  let ?g = "(grid s1)\<lparr>cells := (cells (grid s1))[y := (cells (grid s1) ! y)[x := Some cur]]\<rparr>"
  from o1(1) have shape: "length (cells (grid s1)) = height (grid s1)"
      "\<forall>row\<in>set (cells (grid s1)). length row = width (grid s1)"
      "height (grid s1) = height g0" "width (grid s1) = width g0"
    by (simp_all add: scan_inv_def)
  from shape x y have sr: "set_room (grid s1) (int x) (int y) cur = Inr ?g"
    by (intro set_room_ok) simp_all
  let ?s3 = "s1\<lparr>heap := h2, grid := ?g\<rparr>"
  from o c sr have e: "enter_cell limit y x s = Inr (?s3, cur)"
    by (simp add: enter_cell_def)
  have i3: "scan_inv g0 (Suc B) ?s3"
  proof -
    from o1(1) have sh: "\<forall>row\<in>set (cells (grid s1)). length row = width g0"
      and rg: "\<forall>row\<in>set (cells (grid s1)). \<forall>c. Some c \<in> set row \<longrightarrow> 1 \<le> c \<and> c \<le> room_counter s1"
      by (simp_all add: scan_inv_def)
    from cells_update_shape [OF sh, of y x "Some cur"]
      cells_update_range [OF rg o1(3,4), of y x] o1(1,2,3,4) h2
    show ?thesis unfolding scan_inv_def by simp
  qed
  from shape x y have gr: "get_room (grid ?s3) (int x) (int y) = Some cur"
    using get_room_updated [of "grid s1" y x cur] by simp
  have cu: "case current_room s of
              None \<Rightarrow> cur = Suc (room_counter s) \<and> merged_into (heap s cur) = None \<and>
                       (\<forall>r. merged_into (heap s r) \<noteq> Some cur)
            | Some c \<Rightarrow> cur = c"
    using o2(2) o2(3) by (cases "current_room s") auto
  have ab: "case get_connected_room_above (grid s) (int x) (int y) of
              None \<Rightarrow> \<forall>r a. root_of (heap ?s3) r a \<longleftrightarrow> root_of (heap s) r a
            | Some ra \<Rightarrow>
                \<exists>fa fc. root_of (heap s) ra fa \<and> root_of (heap s) cur fc \<and>
                  (\<forall>r a. root_of (heap ?s3) r a \<longleftrightarrow>
                           (if root_of (heap s) r fc then a = fa else root_of (heap s) r a))"
  proof (cases "get_connected_room_above (grid s) (int x) (int y)")
    case None
    with ce(2) o1(5) have "h2 = heap s1" by simp
    with None r1 show ?thesis by simp
  next
    case (Some ra)
    with ce(3) [of ra] o1(5) obtain fa fc
      where "root_of (heap s1) ra fa" "root_of (heap s1) cur fc"
        "\<forall>r a. root_of h2 r a \<longleftrightarrow> (if root_of (heap s1) r fc then a = fa else root_of (heap s1) r a)"
      by auto
    with r1 have "root_of (heap s) ra fa \<and> root_of (heap s) cur fc \<and>
        (\<forall>r a. root_of h2 r a \<longleftrightarrow> (if root_of (heap s) r fc then a = fa else root_of (heap s) r a))"
      by simp
    with Some show ?thesis by auto
  qed
  from e i3 o1(2,6) gr cu ab show ?thesis
    by (intro exI [of _ ?s3] exI [of _ cur]) simp
qed

lemma floor_cell_step:
  assumes inv: "scan_inv g0 B s" and lim: "Suc B \<le> limit"
    and x: "x < width g0" and y: "y < height g0"
    and fl: "\<not> is_wall (grid s) (int x) (int y)"
    and e: "enter_cell limit y x s = Inr (s3, cur)"
  shows "\<exists>s4 s'. count_chair limit (get_char (grid s) (int x) (int y)) cur s3 = Inr s4 \<and>
           track_name limit (get_char (grid s) (int x) (int y)) cur s4 = Inr s' \<and>
           scan_cell limit y x s = Inr s'"
proof -
  from lim have "B \<le> limit" by simp
  from enter_cell_effect [OF inv this x y] e have "scan_inv g0 (Suc B) s3" by auto
  then have h3: "heap_inv (Suc B) (room_counter s3) (heap s3)" by (simp add: scan_inv_def)
  from count_chair_inv [OF h3 lim] obtain h4
    where cc: "count_chair limit (get_char (grid s) (int x) (int y)) cur s3 = Inr (s3\<lparr>heap := h4\<rparr>)"
      and h4: "heap_inv (Suc B) (room_counter s3) h4" by blast
  let ?s4 = "s3\<lparr>heap := h4\<rparr>"
  from h4 have "heap_inv (Suc B) (room_counter ?s4) (heap ?s4)" by simp
  from track_name_inv [OF this lim] obtain h5 nb
    where tn: "track_name limit (get_char (grid s) (int x) (int y)) cur ?s4 =
                 Inr (?s4\<lparr>heap := h5, name_buffer := nb\<rparr>)" by blast
  from fl e cc tn have "scan_cell limit y x s = Inr (?s4\<lparr>heap := h5, name_buffer := nb\<rparr>)"
    by (simp add: scan_cell_floor)
  with cc tn show ?thesis by blast
qed

lemma chair_char_is_floor:
  assumes "chair_key ch = Some t"
  shows "ch \<notin> WALL_CHARS" and "ch \<noteq> CHR ''(''" and "ch \<noteq> CHR '')''"
  using assms by (auto simp: chair_key_def WALL_CHARS_def split: if_splits)

lemma paren_is_floor: "CHR ''('' \<notin> WALL_CHARS" "CHR '')'' \<notin> WALL_CHARS"
  "chair_key CHR ''('' = None" "chair_key CHR '')'' = None"
  by (simp_all add: WALL_CHARS_def chair_key_def)

section \<open>Rooms with an empty name sort first\<close>

lemma insort_key_least:
  "\<forall>y\<in>set ys. f x \<le> f y \<Longrightarrow> insort_key f x ys = x # ys"
  by (cases ys) auto

lemma insort_key_after_empty:
  fixes f :: "'a \<Rightarrow> string"
  assumes "f x \<noteq> []" and "\<forall>y\<in>set as. f y = []"
  shows "insort_key f x (as @ bs) = as @ insort_key f x bs"
  using assms(2)
proof (induction as)
  case Nil
  show ?case by simp
next
  case (Cons a as)
  from Cons.prems have "f a = []" by simp
  with assms(1) have "\<not> f x \<le> f a" by (cases "f x") simp_all
  with Cons show ?case by simp
qed

lemma sort_key_empty_first:
  fixes f :: "'a \<Rightarrow> string"
  shows "sort_key f xs = filter (\<lambda>x. f x = []) xs @ sort_key f (filter (\<lambda>x. f x \<noteq> []) xs)"
proof (induction xs)
  case Nil
  show ?case by simp
next
  case (Cons x xs)
  show ?case
  proof (cases "f x = []")
    case True
    then have "\<forall>y\<in>set (sort_key f xs). f x \<le> f y" by simp
    then have "insort_key f x (sort_key f xs) = x # sort_key f xs" by (rule insort_key_least)
    with True Cons.IH show ?thesis by simp
  next
    case False
    have "insort_key f x (filter (\<lambda>x. f x = []) xs @ sort_key f (filter (\<lambda>x. f x \<noteq> []) xs)) =
          filter (\<lambda>x. f x = []) xs @ insort_key f x (sort_key f (filter (\<lambda>x. f x \<noteq> []) xs))"
      using False by (intro insort_key_after_empty) simp_all
    with False Cons.IH show ?thesis by simp
  qed
qed

section \<open>Claims about the scanner\<close>

text \<open>
  C2, as claimed: two floor segments of a row that a wall separates are never unified,
  not even when both are connected to one region above.  In the two-row grid whose
  first row is three blanks and whose second row is a blank, a wall and a blank, the
  cells left and right of the wall are both below cells of the first row's region,
  and after the scan both have that region's root: they are unified.
\<close>

theorem wall_separated_segments_unified:
  "is_wall (Grid (''   '' @ [CHR 0x0A] @ '' | '')) 1 1 \<and>
   \<not> is_wall (Grid (''   '' @ [CHR 0x0A] @ '' | '')) 0 1 \<and>
   \<not> is_wall (Grid (''   '' @ [CHR 0x0A] @ '' | '')) 2 1 \<and>
   \<not> is_wall (Grid (''   '' @ [CHR 0x0A] @ '' | '')) 0 0 \<and>
   \<not> is_wall (Grid (''   '' @ [CHR 0x0A] @ '' | '')) 2 0 \<and>
   cell_root 7 (''   '' @ [CHR 0x0A] @ '' | '') 0 0 = Some 1 \<and>
   cell_root 7 (''   '' @ [CHR 0x0A] @ '' | '') 2 0 = Some 1 \<and>
   cell_root 7 (''   '' @ [CHR 0x0A] @ '' | '') 0 1 = Some 1 \<and>
   cell_root 7 (''   '' @ [CHR 0x0A] @ '' | '') 2 1 = Some 1"
  by code_simp

text \<open>
  C2, amended.  Let \<open>s\<close> be the state of a scan just before a cell and \<open>s'\<close> the state
  after it.  On a wall cell the store is unchanged and the open region is closed.  On
  a floor cell the cell is assigned the open room, which after a wall (or at the
  start of a row) is a new room, different from the room of every cell scanned so far
  and alone in its class; and the classes change only through the check of the cell
  directly above: without a room there, every room keeps its root; with a room \<open>ra\<close>
  there, the rooms of the current room's class get the root of \<open>ra\<close> and every other
  room keeps its root.  So two segments that a wall separates are unified exactly
  through such vertical connections, as when both connect to one region above.
\<close>

theorem merges_only_with_room_above:
  assumes "height (Grid text) * width (Grid text) < limit"
    and "y < height (Grid text)" and "x < width (Grid text)"
    and "scan_prefix limit text y x = Inr s"
  shows "\<exists>s'. scan_prefix limit text y (Suc x) = Inr s' \<and>
           (if is_wall (grid s) (int x) (int y)
            then current_room s' = None \<and> heap s' = heap s
            else \<exists>cur. current_room s' = Some cur \<and>
                   get_room (grid s') (int x) (int y) = Some cur \<and>
                   (case current_room s of
                      None \<Rightarrow> (\<forall>x' y'. get_room (grid s) x' y' \<noteq> Some cur) \<and>
                               (\<forall>r. root_of (heap s) r cur \<longleftrightarrow> r = cur)
                    | Some c \<Rightarrow> cur = c) \<and>
                   (case get_connected_room_above (grid s) (int x) (int y) of
                      None \<Rightarrow> \<forall>r a. root_of (heap s') r a \<longleftrightarrow> root_of (heap s) r a
                    | Some ra \<Rightarrow>
                        \<exists>fa fc. root_of (heap s) ra fa \<and> root_of (heap s) cur fc \<and>
                          (\<forall>r a. root_of (heap s') r a \<longleftrightarrow>
                             (if root_of (heap s) r fc then a = fa else root_of (heap s) r a))))"
proof -
  note st = scan_prefix_step [OF assms]
  from assms(4) have nx: "scan_prefix limit text y (Suc x) = scan_cell limit y x s"
    by (rule scan_prefix_Suc)
  show ?thesis
  proof (cases "is_wall (grid s) (int x) (int y)")
    case True
    with nx show ?thesis by (simp add: scan_cell_wall)
  next
    case False
    from st(2) have lim: "Suc (width (Grid text) * y + x) \<le> limit" by simp
    from enter_cell_effect [OF st(1) lim assms(3,2)] obtain s3 cur
      where e: "enter_cell limit y x s = Inr (s3, cur)"
        and c3: "current_room s3 = Some cur"
        and g3: "get_room (grid s3) (int x) (int y) = Some cur"
        and cu: "case current_room s of
              None \<Rightarrow> cur = Suc (room_counter s) \<and> merged_into (heap s cur) = None \<and>
                       (\<forall>r. merged_into (heap s r) \<noteq> Some cur)
            | Some c \<Rightarrow> cur = c"
        and ab: "case get_connected_room_above (grid s) (int x) (int y) of
              None \<Rightarrow> \<forall>r a. root_of (heap s3) r a \<longleftrightarrow> root_of (heap s) r a
            | Some ra \<Rightarrow>
                \<exists>fa fc. root_of (heap s) ra fa \<and> root_of (heap s) cur fc \<and>
                  (\<forall>r a. root_of (heap s3) r a \<longleftrightarrow>
                           (if root_of (heap s) r fc then a = fa else root_of (heap s) r a))"
      by blast
    from floor_cell_step [OF st(1,2) assms(3,2) False e] obtain s4 s'
      where cc: "count_chair limit (get_char (grid s) (int x) (int y)) cur s3 = Inr s4"
        and tn: "track_name limit (get_char (grid s) (int x) (int y)) cur s4 = Inr s'"
        and sc: "scan_cell limit y x s = Inr s'" by blast
    note ce = count_chair_effect [OF cc]
    note te = track_name_effect [OF tn]
    have roots: "root_of (heap s') r a \<longleftrightarrow> root_of (heap s3) r a" for r a
      using ce(2) te(2) by simp
    from ce(1) te(1) c3 g3 have cur': "current_room s' = Some cur"
        "get_room (grid s') (int x) (int y) = Some cur" by simp_all
    have fresh: "case current_room s of
                      None \<Rightarrow> (\<forall>x' y'. get_room (grid s) x' y' \<noteq> Some cur) \<and>
                               (\<forall>r. root_of (heap s) r cur \<longleftrightarrow> r = cur)
                    | Some c \<Rightarrow> cur = c"
    proof (cases "current_room s")
      case (Some c)
      with cu show ?thesis by simp
    next
      case None
      with cu have c: "cur = Suc (room_counter s)" and r: "merged_into (heap s cur) = None"
        and n: "\<forall>r. merged_into (heap s r) \<noteq> Some cur" by auto
      have "get_room (grid s) x' y' \<noteq> Some cur" for x' y'
        using get_room_in_range [OF st(1), of x' y' cur] c by auto
      moreover have "root_of (heap s) r cur \<longleftrightarrow> r = cur" for r
        using root_of_last_link [of "heap s" r cur] n r by (auto intro: root_of.root_self)
      ultimately show ?thesis using None by simp
    qed
    have above: "case get_connected_room_above (grid s) (int x) (int y) of
                      None \<Rightarrow> \<forall>r a. root_of (heap s') r a \<longleftrightarrow> root_of (heap s) r a
                    | Some ra \<Rightarrow>
                        \<exists>fa fc. root_of (heap s) ra fa \<and> root_of (heap s) cur fc \<and>
                          (\<forall>r a. root_of (heap s') r a \<longleftrightarrow>
                             (if root_of (heap s) r fc then a = fa else root_of (heap s) r a))"
      using ab unfolding roots by simp
    have body: "\<exists>cur. current_room s' = Some cur \<and>
                   get_room (grid s') (int x) (int y) = Some cur \<and>
                   (case current_room s of
                      None \<Rightarrow> (\<forall>x' y'. get_room (grid s) x' y' \<noteq> Some cur) \<and>
                               (\<forall>r. root_of (heap s) r cur \<longleftrightarrow> r = cur)
                    | Some c \<Rightarrow> cur = c) \<and>
                   (case get_connected_room_above (grid s) (int x) (int y) of
                      None \<Rightarrow> \<forall>r a. root_of (heap s') r a \<longleftrightarrow> root_of (heap s) r a
                    | Some ra \<Rightarrow>
                        \<exists>fa fc. root_of (heap s) ra fa \<and> root_of (heap s) cur fc \<and>
                          (\<forall>r a. root_of (heap s') r a \<longleftrightarrow>
                             (if root_of (heap s) r fc then a = fa else root_of (heap s) r a)))"
      by (intro exI [of _ cur] conjI cur' fresh above)
    from nx sc have p: "scan_prefix limit text y (Suc x) = Inr s'" by simp
    show ?thesis
      by (rule exI [of _ s'], rule conjI, rule p, simp only: False if_False, rule body)
  qed
qed

theorem merges_only_with_room_above_witness:
  "height (Grid (''   '' @ [CHR 0x0A] @ '' | '')) * width (Grid (''   '' @ [CHR 0x0A] @ '' | '')) < 7 \<and>
   1 < height (Grid (''   '' @ [CHR 0x0A] @ '' | '')) \<and>
   2 < width (Grid (''   '' @ [CHR 0x0A] @ '' | '')) \<and>
   (\<exists>s. scan_prefix 7 (''   '' @ [CHR 0x0A] @ '' | '') 1 2 = Inr s \<and>
      \<not> is_wall (grid s) 2 1 \<and> current_room s = None \<and>
      get_connected_room_above (grid s) 2 1 = Some 1 \<and>
      (\<exists>s'. scan_prefix 7 (''   '' @ [CHR 0x0A] @ '' | '') 1 3 = Inr s' \<and>
         (\<exists>cur. current_room s' = Some cur \<and> get_room (grid s') 2 1 = Some cur \<and>
            (\<forall>x' y'. get_room (grid s) x' y' \<noteq> Some cur) \<and>
            (\<forall>r. root_of (heap s) r cur \<longleftrightarrow> r = cur) \<and>
            (\<exists>fa fc. root_of (heap s) 1 fa \<and> root_of (heap s) cur fc \<and>
               (\<forall>r a. root_of (heap s') r a \<longleftrightarrow>
                  (if root_of (heap s) r fc then a = fa else root_of (heap s) r a))))))"
proof -
  let ?T = "''   '' @ [CHR 0x0A] @ '' | ''"
  have h: "height (Grid ?T) * width (Grid ?T) < 7" "1 < height (Grid ?T)" "2 < width (Grid ?T)"
    by code_simp+
  from scan_prefix_inv [OF h(1,2), of 2] h(3) obtain s
    where s: "scan_prefix 7 ?T 1 2 = Inr s" by auto
  have "map_sum id (\<lambda>s. (is_wall (grid s) 2 1, current_room s,
          get_connected_room_above (grid s) 2 1)) (scan_prefix 7 ?T 1 2) = Inr (False, None, Some 1)"
    by code_simp
  with s have c: "\<not> is_wall (grid s) 2 1" "current_room s = None"
    "get_connected_room_above (grid s) 2 1 = Some 1" by simp_all
  from merges_only_with_room_above [OF h s] c obtain s'
    where "scan_prefix 7 ?T 1 3 = Inr s'"
      and "\<exists>cur. current_room s' = Some cur \<and> get_room (grid s') 2 1 = Some cur \<and>
            (\<forall>x' y'. get_room (grid s) x' y' \<noteq> Some cur) \<and>
            (\<forall>r. root_of (heap s) r cur \<longleftrightarrow> r = cur) \<and>
            (\<exists>fa fc. root_of (heap s) 1 fa \<and> root_of (heap s) cur fc \<and>
               (\<forall>r a. root_of (heap s') r a \<longleftrightarrow>
                  (if root_of (heap s) r fc then a = fa else root_of (heap s) r a)))"
    by (auto simp: numeral_3_eq_3)
  with h s c show ?thesis by blast
qed

text \<open>
  C9.  When the scan reaches a cell that holds a chair character while a name is being
  captured, the character is appended to the name buffer and the chair is counted as
  well: once the cell has been entered (state \<open>s3\<close>), the count of that chair type on
  the root of the current room is raised by one.
\<close>

theorem chair_in_name_counts:
  assumes "height (Grid text) * width (Grid text) < limit"
    and "y < height (Grid text)" and "x < width (Grid text)"
    and "scan_prefix limit text y x = Inr s"
    and "chair_key (get_char (Grid text) (int x) (int y)) = Some t"
    and "name_buffer s = Some buf"
  shows "\<exists>s3 cur s' r.
           enter_cell limit y x s = Inr (s3, cur) \<and>
           scan_prefix limit text y (Suc x) = Inr s' \<and>
           current_room s' = Some cur \<and> root_of (heap s3) cur r \<and> root_of (heap s') cur r \<and>
           chairs (heap s' r) = (chairs (heap s3 r))(t := chairs (heap s3 r) t + 1) \<and>
           name_buffer s' = Some (buf @ [get_char (Grid text) (int x) (int y)])"
proof -
  note st = scan_prefix_step [OF assms(1-4)]
  let ?ch = "get_char (Grid text) (int x) (int y)"
  from st(1) have ch: "get_char (grid s) (int x) (int y) = ?ch"
    by (intro get_char_same_lines) (simp_all add: scan_inv_def)
  note fl = chair_char_is_floor [OF assms(5)]
  from fl(1) ch have nw: "\<not> is_wall (grid s) (int x) (int y)" by (simp add: is_wall_def)
  from st(2) have lim: "Suc (width (Grid text) * y + x) \<le> limit" by simp
  from enter_cell_effect [OF st(1) lim assms(3,2)] obtain s3 cur
    where e: "enter_cell limit y x s = Inr (s3, cur)"
      and c3: "current_room s3 = Some cur" and n3: "name_buffer s3 = name_buffer s"
    by blast
  from floor_cell_step [OF st(1,2) assms(3,2) nw e] ch obtain s4 s'
    where cc: "count_chair limit ?ch cur s3 = Inr s4"
      and tn: "track_name limit ?ch cur s4 = Inr s'"
      and sc: "scan_cell limit y x s = Inr s'" by auto
  note ce = count_chair_effect [OF cc]
  note te = track_name_effect [OF tn]
  from ce(4) [OF assms(5)] obtain r where r: "root_of (heap s3) cur r"
    and c4: "chairs (heap s4 r) = (chairs (heap s3 r))(t := chairs (heap s3 r) t + 1)"
    by blast
  from ce(1) n3 assms(6) have "name_buffer s4 = Some buf" by simp
  from te(6) [OF fl(2,3) this] have nb: "name_buffer s' = Some (buf @ [?ch])"
    and hs: "heap s' = heap s4" by simp_all
  from r ce(2) hs have r': "root_of (heap s') cur r" by simp
  from ce(1) te(1) c3 have c': "current_room s' = Some cur" by simp
  from scan_prefix_Suc [OF assms(4)] sc
  have "scan_prefix limit text y (Suc x) = Inr s'" by simp
  with e c' r r' c4 hs nb show ?thesis by (intro exI [of _ s3] exI [of _ cur] exI [of _ s'] exI [of _ r]) simp
qed

theorem chair_in_name_counts_witness:
  "height (Grid ''(Working)'') * width (Grid ''(Working)'') < 10 \<and>
   0 < height (Grid ''(Working)'') \<and> 1 < width (Grid ''(Working)'') \<and>
   chair_key (get_char (Grid ''(Working)'') 1 0) = Some W \<and>
   (\<exists>s. scan_prefix 10 ''(Working)'' 0 1 = Inr s \<and> name_buffer s = Some [] \<and>
      (\<exists>s3 cur s' r.
         enter_cell 10 0 1 s = Inr (s3, cur) \<and> scan_prefix 10 ''(Working)'' 0 2 = Inr s' \<and>
         current_room s' = Some cur \<and> root_of (heap s3) cur r \<and> root_of (heap s') cur r \<and>
         chairs (heap s' r) = (chairs (heap s3 r))(W := chairs (heap s3 r) W + 1) \<and>
         name_buffer s' = Some ''W'')) \<and>
   map_sum id (\<lambda>(rooms, err). (map snapshot rooms, err)) (parse 10 ''(Working)'') =
     Inr ([(1, Some ''Working'', [1, 0, 0, 0], None)], [])"
proof -
  let ?T = "''(Working)''"
  have h: "height (Grid ?T) * width (Grid ?T) < 10" "0 < height (Grid ?T)" "1 < width (Grid ?T)"
    by code_simp+
  have k: "chair_key (get_char (Grid ?T) (int 1) (int 0)) = Some W" by code_simp
  from scan_prefix_inv [OF h(1,2), of 1] h(3) obtain s
    where s: "scan_prefix 10 ?T 0 1 = Inr s" by auto
  have "map_sum id name_buffer (scan_prefix 10 ?T 0 1) = Inr (Some [])" by code_simp
  with s have nb: "name_buffer s = Some []" by simp
  have p: "map_sum id (\<lambda>(rooms, err). (map snapshot rooms, err)) (parse 10 ?T) =
     Inr ([(1, Some ''Working'', [1, 0, 0, 0], None)], [])" by code_simp
  from chair_in_name_counts [OF h s k nb] k
  have "\<exists>s3 cur s' r.
         enter_cell 10 0 1 s = Inr (s3, cur) \<and> scan_prefix 10 ?T 0 2 = Inr s' \<and>
         current_room s' = Some cur \<and> root_of (heap s3) cur r \<and> root_of (heap s') cur r \<and>
         chairs (heap s' r) = (chairs (heap s3 r))(W := chairs (heap s3 r) W + 1) \<and>
         name_buffer s' = Some ''W''"
    by (simp add: numeral_2_eq_2 get_char_def Grid_def splitlines_def is_linebreak_def)
  with h k s nb p show ?thesis by auto
qed

lemma paren_step_open:
  assumes inv: "scan_inv (Grid text) B s" and lim: "Suc B \<le> limit"
    and x: "x < width (Grid text)" and y: "y < height (Grid text)"
    and ch: "get_char (Grid text) (int x) (int y) = CHR ''(''"
  shows "\<exists>s'. scan_cell limit y x s = Inr s' \<and> name_buffer s' = Some []"
proof -
  from inv have g: "get_char (grid s) (int x) (int y) = CHR ''(''"
    using ch get_char_same_lines [of "grid s" "Grid text"] by (simp add: scan_inv_def)
  with paren_is_floor(1) have nw: "\<not> is_wall (grid s) (int x) (int y)" by (simp add: is_wall_def)
  from lim have "B \<le> limit" by simp
  from enter_cell_effect [OF inv this x y] obtain s3 cur
    where e: "enter_cell limit y x s = Inr (s3, cur)" by blast
  from floor_cell_step [OF inv lim x y nw e] g obtain s4 s'
    where tn: "track_name limit CHR ''('' cur s4 = Inr s'"
      and sc: "scan_cell limit y x s = Inr s'" by auto
  from track_name_effect(4) [OF tn] sc show ?thesis by simp
qed

lemma paren_step_close:
  assumes inv: "scan_inv (Grid text) B s" and lim: "Suc B \<le> limit"
    and x: "x < width (Grid text)" and y: "y < height (Grid text)"
    and ch: "get_char (Grid text) (int x) (int y) = CHR '')''"
    and nb: "name_buffer s = Some buf"
  shows "\<exists>s' cur r. scan_cell limit y x s = Inr s' \<and> current_room s' = Some cur \<and>
           root_of (heap s') cur r \<and> name (heap s' r) = Some buf \<and> name_buffer s' = None"
proof -
  from inv have g: "get_char (grid s) (int x) (int y) = CHR '')''"
    using ch get_char_same_lines [of "grid s" "Grid text"] by (simp add: scan_inv_def)
  with paren_is_floor(2) have nw: "\<not> is_wall (grid s) (int x) (int y)" by (simp add: is_wall_def)
  from lim have "B \<le> limit" by simp
  from enter_cell_effect [OF inv this x y] obtain s3 cur
    where e: "enter_cell limit y x s = Inr (s3, cur)"
      and c3: "current_room s3 = Some cur" and n3: "name_buffer s3 = name_buffer s" by blast
  from floor_cell_step [OF inv lim x y nw e] g obtain s4 s'
    where cc: "count_chair limit CHR '')'' cur s3 = Inr s4"
      and tn: "track_name limit CHR '')'' cur s4 = Inr s'"
      and sc: "scan_cell limit y x s = Inr s'" by auto
  note ce = count_chair_effect [OF cc]
  note te = track_name_effect [OF tn]
  from ce(1) n3 nb have "name_buffer s4 = Some buf" by simp
  from te(5) [OF refl this] obtain r where "name_buffer s' = None"
    and "root_of (heap s4) cur r" and "name (heap s' r) = Some buf" by blast
  moreover from ce(1) te(1) c3 have "current_room s' = Some cur" by simp
  ultimately show ?thesis using sc te(2) by blast
qed

text \<open>
  What holds of the empty name, step by step.  An opening parenthesis directly
  followed by a closing one gives the root of the current room the empty string as
  its name (not the absence of a name).  The rooms \<^verbatim>\<open>parse\<close> returns are the roots whose
  name is not absent at the end of the scan.  In the formatted output the rooms whose
  sort key is the empty string come first, in their order in the list, before all
  other rooms.  Whether the root still has the name at the end of the scan is another
  matter, since \<^verbatim>\<open>merge_with\<close> may drop it.
\<close>

theorem empty_name_is_a_name:
  "(height (Grid text) * width (Grid text) < limit \<and> y < height (Grid text) \<and>
    Suc x < width (Grid text) \<and> scan_prefix limit text y x = Inr s \<and>
    get_char (Grid text) (int x) (int y) = CHR ''('' \<and>
    get_char (Grid text) (int (Suc x)) (int y) = CHR '')'' \<longrightarrow>
      (\<exists>s' cur r. scan_prefix limit text y (Suc (Suc x)) = Inr s' \<and> current_room s' = Some cur \<and>
         root_of (heap s') cur r \<and> name (heap s' r) = Some [])) \<and>
   (height (Grid text) * width (Grid text) < limit \<longrightarrow>
      (\<exists>s roots rooms err. scan limit text = Inr s \<and>
         list_all2 (root_of (heap s)) (assigned (grid s)) roots \<and>
         parse limit text = Inr (rooms, err) \<and>
         set rooms = heap s ` {a \<in> set roots. name (heap s a) \<noteq> None})) \<and>
   format_output rs =
     ''total:'' @ [CHR 0x0A] @
     format_chair_line (\<lambda>t. sum_list (map (\<lambda>r. chairs r t) rs)) @ [CHR 0x0A] @
     concat (map (\<lambda>r. str_name (name r) @ '':'' @ [CHR 0x0A] @
                       format_chair_line (chairs r) @ [CHR 0x0A])
               (filter (\<lambda>r. name_or_empty r = []) rs)) @
     concat (map (\<lambda>r. str_name (name r) @ '':'' @ [CHR 0x0A] @
                       format_chair_line (chairs r) @ [CHR 0x0A])
               (sort_key name_or_empty (filter (\<lambda>r. name_or_empty r \<noteq> []) rs)))"
proof (intro conjI impI)
  assume A: "height (Grid text) * width (Grid text) < limit \<and> y < height (Grid text) \<and>
    Suc x < width (Grid text) \<and> scan_prefix limit text y x = Inr s \<and>
    get_char (Grid text) (int x) (int y) = CHR ''('' \<and>
    get_char (Grid text) (int (Suc x)) (int y) = CHR '')''"
  then have lim: "height (Grid text) * width (Grid text) < limit" and y: "y < height (Grid text)"
    and x1: "Suc x < width (Grid text)" and x: "x < width (Grid text)"
    and s: "scan_prefix limit text y x = Inr s" by simp_all
  note st = scan_prefix_step [OF lim y x s]
  from A paren_step_open [OF st(1,2) x y] obtain s1
    where sc1: "scan_cell limit y x s = Inr s1" and nb: "name_buffer s1 = Some []" by blast
  from scan_prefix_Suc [OF s] sc1 have s1: "scan_prefix limit text y (Suc x) = Inr s1" by simp
  note st1 = scan_prefix_step [OF lim y x1 s1]
  from A paren_step_close [OF st1(1,2) x1 y _ nb] obtain s2 cur r
    where sc2: "scan_cell limit y (Suc x) s1 = Inr s2" and "current_room s2 = Some cur"
      and "root_of (heap s2) cur r" and "name (heap s2 r) = Some []" by blast
  moreover from scan_prefix_Suc [OF s1] sc2
  have "scan_prefix limit text y (Suc (Suc x)) = Inr s2" by simp
  ultimately show "\<exists>s' cur r. scan_prefix limit text y (Suc (Suc x)) = Inr s' \<and>
      current_room s' = Some cur \<and> root_of (heap s') cur r \<and> name (heap s' r) = Some []"
    by blast
next
  assume "height (Grid text) * width (Grid text) < limit"
  from parse_spec [OF this] obtain s roots
    where sc: "scan limit text = Inr s"
      and la: "list_all2 (root_of (heap s)) (assigned (grid s)) roots"
      and p: "parse limit text =
             Inr (map (heap s) (fst (snd (extracted (heap s) roots))),
                  snd (snd (extracted (heap s) roots)))" by blast
  have "set (map (heap s) (fst (snd (extracted (heap s) roots)))) =
          heap s ` {a \<in> set roots. name (heap s a) \<noteq> None}"
    by (simp add: extracted_def)
  with sc la p show "\<exists>s roots rooms err. scan limit text = Inr s \<and>
         list_all2 (root_of (heap s)) (assigned (grid s)) roots \<and>
         parse limit text = Inr (rooms, err) \<and>
         set rooms = heap s ` {a \<in> set roots. name (heap s a) \<noteq> None}"
    by blast
next
  have "format_output rs =
       ''total:'' @ [CHR 0x0A] @
       format_chair_line (\<lambda>t. sum_list (map (\<lambda>r. chairs r t) rs)) @ [CHR 0x0A] @
       concat (map (\<lambda>r. str_name (name r) @ '':'' @ [CHR 0x0A] @
                         format_chair_line (chairs r) @ [CHR 0x0A]) (sort_key name_or_empty rs))"
    unfolding format_output_def Let_def fold_totals
    by (simp add: join_lines concat_room_lines del: name_or_empty.simps)
  also have "sort_key name_or_empty rs =
      filter (\<lambda>r. name_or_empty r = []) rs @
      sort_key name_or_empty (filter (\<lambda>r. name_or_empty r \<noteq> []) rs)"
    by (rule sort_key_empty_first)
  finally show "format_output rs =
     ''total:'' @ [CHR 0x0A] @
     format_chair_line (\<lambda>t. sum_list (map (\<lambda>r. chairs r t) rs)) @ [CHR 0x0A] @
     concat (map (\<lambda>r. str_name (name r) @ '':'' @ [CHR 0x0A] @
                       format_chair_line (chairs r) @ [CHR 0x0A])
               (filter (\<lambda>r. name_or_empty r = []) rs)) @
     concat (map (\<lambda>r. str_name (name r) @ '':'' @ [CHR 0x0A] @
                       format_chair_line (chairs r) @ [CHR 0x0A])
               (sort_key name_or_empty (filter (\<lambda>r. name_or_empty r \<noteq> []) rs)))"
    by simp
qed

theorem empty_name_is_a_name_witness:
  "height (Grid ''()'') * width (Grid ''()'') < 3 \<and> 0 < height (Grid ''()'') \<and>
   Suc 0 < width (Grid ''()'') \<and>
   get_char (Grid ''()'') 0 0 = CHR ''('' \<and> get_char (Grid ''()'') 1 0 = CHR '')'' \<and>
   (\<exists>s. scan_prefix 3 ''()'' 0 0 = Inr s \<and>
      (\<exists>s' cur r. scan_prefix 3 ''()'' 0 2 = Inr s' \<and> current_room s' = Some cur \<and>
         root_of (heap s') cur r \<and> name (heap s' r) = Some [])) \<and>
   (\<exists>s roots rooms err. scan 3 ''()'' = Inr s \<and>
      list_all2 (root_of (heap s)) (assigned (grid s)) roots \<and>
      parse 3 ''()'' = Inr (rooms, err) \<and>
      set rooms = heap s ` {a \<in> set roots. name (heap s a) \<noteq> None}) \<and>
   map_sum id (\<lambda>(rooms, err). (map snapshot rooms, err)) (parse 3 ''()'') =
     Inr ([(1, Some [], [0, 0, 0, 0], None)], []) \<and>
   format_output [(Room 1)\<lparr>name := Some ''b''\<rparr>, (Room 2)\<lparr>name := Some []\<rparr>] =
     ''total:'' @ [CHR 0x0A] @ ''W: 0, P: 0, S: 0, C: 0'' @ [CHR 0x0A] @
     '':'' @ [CHR 0x0A] @ ''W: 0, P: 0, S: 0, C: 0'' @ [CHR 0x0A] @
     ''b:'' @ [CHR 0x0A] @ ''W: 0, P: 0, S: 0, C: 0'' @ [CHR 0x0A]"
proof -
  let ?T = "''()''"
  have h: "height (Grid ?T) * width (Grid ?T) < 3" "0 < height (Grid ?T)" "Suc 0 < width (Grid ?T)"
    by code_simp+
  have g: "get_char (Grid ?T) (int 0) (int 0) = CHR ''(''"
      "get_char (Grid ?T) (int (Suc 0)) (int 0) = CHR '')''" by code_simp+
  have "0 \<le> width (Grid ?T)" by simp
  from scan_prefix_inv [OF h(1,2) this] obtain s where s: "scan_prefix 3 ?T 0 0 = Inr s" by blast
  note t = empty_name_is_a_name [of ?T 3 0 0 s "[(Room 1)\<lparr>name := Some ''b''\<rparr>, (Room 2)\<lparr>name := Some []\<rparr>]"]
  from t h g s have 1: "\<exists>s' cur r. scan_prefix 3 ?T 0 (Suc (Suc 0)) = Inr s' \<and> current_room s' = Some cur \<and>
         root_of (heap s') cur r \<and> name (heap s' r) = Some []" by blast
  from t h have 2: "\<exists>s roots rooms err. scan 3 ?T = Inr s \<and>
      list_all2 (root_of (heap s)) (assigned (grid s)) roots \<and>
      parse 3 ?T = Inr (rooms, err) \<and>
      set rooms = heap s ` {a \<in> set roots. name (heap s a) \<noteq> None}" by blast
  have 3: "map_sum id (\<lambda>(rooms, err). (map snapshot rooms, err)) (parse 3 ?T) =
     Inr ([(1, Some [], [0, 0, 0, 0], None)], [])" by code_simp
  have 4: "format_output [(Room 1)\<lparr>name := Some ''b''\<rparr>, (Room 2)\<lparr>name := Some []\<rparr>] =
     ''total:'' @ [CHR 0x0A] @ ''W: 0, P: 0, S: 0, C: 0'' @ [CHR 0x0A] @
     '':'' @ [CHR 0x0A] @ ''W: 0, P: 0, S: 0, C: 0'' @ [CHR 0x0A] @
     ''b:'' @ [CHR 0x0A] @ ''W: 0, P: 0, S: 0, C: 0'' @ [CHR 0x0A]"
    by code_simp
  from h g s 1 2 3 4 show ?thesis by (auto simp: numeral_2_eq_2)
qed

section \<open>Claims that the code does not meet\<close>

text \<open>
  The name rule of \<^verbatim>\<open>merge_with\<close> seen from \<^verbatim>\<open>parse\<close>: a region named \<^verbatim>\<open>(x)\<close> that is
  then merged into an unnamed region above keeps its name, while a region named \<^verbatim>\<open>()\<close>
  loses it in the same situation and is not returned.
\<close>

lemma merged_empty_name_is_lost:
  "map_sum id (\<lambda>(rooms, err). (map snapshot rooms, err))
     (parse 9 (''--- '' @ [CHR 0x0A] @ ''(x) '')) = Inr ([(1, Some ''x'', [0, 0, 0, 0], None)], []) \<and>
   map_sum id (\<lambda>(rooms, err). (map snapshot rooms, err))
     (parse 9 (''-- '' @ [CHR 0x0A] @ ''() '')) = Inr ([], [])"
  by code_simp

text \<open>
  C10.  The claim: a region named by \<^verbatim>\<open>()\<close> has the empty string as its name and is in
  the list \<^verbatim>\<open>parse\<close> returns.  In the plan whose first row is two walls and a blank and
  whose second row is \<^verbatim>\<open>()\<close> and a blank, room 2 is a root named by the empty string
  once \<^verbatim>\<open>()\<close> has been scanned; the next cell lies below the unnamed room 1, which
  absorbs room 2 and does not adopt the empty name (the name test of \<^verbatim>\<open>merge_with\<close>);
  at the end of the scan the root of the region has no name, and \<^verbatim>\<open>parse\<close> returns no
  room.
\<close>

theorem empty_name_region_not_returned:
  "map_sum id (\<lambda>s. (current_room s, name_buffer s,
                     map (\<lambda>a. (name (heap s a), merged_into (heap s a))) [1, 2]))
     (scan_prefix 7 (''-- '' @ [CHR 0x0A] @ ''() '') 1 2) =
     Inr (Some 2, None, [(None, None), (Some [], None)]) \<and>
   map_sum id (\<lambda>s. map (\<lambda>a. (name (heap s a), merged_into (heap s a))) [1, 2])
     (scan 7 (''-- '' @ [CHR 0x0A] @ ''() '')) = Inr [(None, None), (Some [], Some 1)] \<and>
   map_sum id (\<lambda>(rooms, err). (map snapshot rooms, err))
     (parse 7 (''-- '' @ [CHR 0x0A] @ ''() '')) = Inr ([], [])"
  by code_simp

text \<open>
  The scan of the plan \<open>comb n\<close>, cell by cell: its two lines, the first row, which opens
  a room for every compartment, and the second row, where every compartment's root is
  merged into the root of its right neighbour.
\<close>

lemma splitlines_from_linefeed:
  "\<forall>c\<in>set xs. \<not> is_linebreak c \<Longrightarrow>
   splitlines_from acc (xs @ CHR 0x0A # ys) = (rev acc @ xs) # splitlines_from [] ys"
proof (induction xs arbitrary: acc)
  case Nil
  show ?case by (cases ys) (simp_all add: is_linebreak_def)
next
  case (Cons x xs)
  obtain d cs where d: "xs @ CHR 0x0A # ys = d # cs" by (cases xs) auto
  from Cons.prems have x: "\<not> is_linebreak x" and xs: "\<forall>c\<in>set xs. \<not> is_linebreak c" by auto
  from x have "x \<noteq> CHR 0x0D" by (auto simp: is_linebreak_def)
  with x have "splitlines_from acc (x # d # cs) = splitlines_from (x # acc) (d # cs)" by simp
  with d have "splitlines_from acc ((x # xs) @ CHR 0x0A # ys) =
                 splitlines_from (x # acc) (xs @ CHR 0x0A # ys)" by simp
  also have "\<dots> = (rev (x # acc) @ xs) # splitlines_from [] ys" using xs by (rule Cons.IH)
  finally show ?case by simp
qed

lemma splitlines_from_last_line:
  "\<forall>c\<in>set xs. \<not> is_linebreak c \<Longrightarrow> acc @ xs \<noteq> [] \<Longrightarrow> splitlines_from acc xs = [rev acc @ xs]"
proof (induction xs arbitrary: acc)
  case Nil
  then show ?case by simp
next
  case (Cons x xs)
  from Cons.prems have x: "\<not> is_linebreak x" and xs: "\<forall>c\<in>set xs. \<not> is_linebreak c" by auto
  from x have cr: "x \<noteq> CHR 0x0D" by (auto simp: is_linebreak_def)
  show ?case
  proof (cases xs)
    case Nil
    with x show ?thesis by simp
  next
    case (Cons d cs)
    with x cr have "splitlines_from acc (x # xs) = splitlines_from (x # acc) xs" by simp
    also have "\<dots> = [rev (x # acc) @ xs]" using xs by (rule Cons.IH) simp
    finally show ?thesis by simp
  qed
qed

lemma length_comb_top: "length (comb_top n) = 2 * n + 1"
  by (induction n) (simp_all add: comb_top_def)

lemma comb_top_nth:
  "k < 2 * n + 1 \<Longrightarrow> comb_top n ! k = (if even k then CHR '' '' else CHR ''|'')"
proof (induction n arbitrary: k)
  case 0
  then show ?case by (simp add: comb_top_def)
next
  case (Suc n)
  have top: "comb_top (Suc n) = CHR '' '' # CHR ''|'' # comb_top n" by (simp add: comb_top_def)
  show ?case
  proof (cases k)
    case 0
    with top show ?thesis by simp
  next
    case (Suc k1)
    show ?thesis
    proof (cases k1)
      case 0
      with Suc top show ?thesis by simp
    next
      case (Suc k2)
      with \<open>k = Suc k1\<close> Suc.prems have "k2 < 2 * n + 1" by simp
      then have "comb_top n ! k2 = (if even k2 then CHR '' '' else CHR ''|'')" by (rule Suc.IH)
      with Suc \<open>k = Suc k1\<close> top show ?thesis by simp
    qed
  qed
qed

lemma comb_top_plain: "c \<in> set (comb_top n) \<Longrightarrow> \<not> is_linebreak c"
  by (induction n) (auto simp: comb_top_def is_linebreak_def)

lemma splitlines_comb: "splitlines (comb n) = [comb_top n, replicate (2 * n + 1) CHR '' '']"
proof -
  have "splitlines (comb n) = splitlines_from [] (comb_top n @ CHR 0x0A # replicate (2 * n + 1) CHR '' '')"
    by (simp add: splitlines_def comb_def comb_top_def)
  also have "\<dots> = (rev [] @ comb_top n) # splitlines_from [] (replicate (2 * n + 1) CHR '' '')"
    by (rule splitlines_from_linefeed) (simp add: comb_top_plain)
  also have "splitlines_from [] (replicate (2 * n + 1) CHR '' '') = [rev [] @ replicate (2 * n + 1) CHR '' '']"
    by (rule splitlines_from_last_line) (simp_all add: is_linebreak_def)
  finally show ?thesis by simp
qed

lemma Grid_comb:
  "Grid (comb n) =
     \<lparr>lines = [comb_top n, replicate (2 * n + 1) CHR '' ''], height = 2, width = 2 * n + 1,
      cells = [replicate (2 * n + 1) None, replicate (2 * n + 1) None]\<rparr>"
  by (simp add: Grid_def splitlines_comb length_comb_top Let_def numeral_2_eq_2)

lemma comb_get_char0:
  "comb_grid n g \<Longrightarrow> k < 2 * n + 1 \<Longrightarrow>
   get_char g (int k) 0 = (if even k then CHR '' '' else CHR ''|'')"
  by (simp add: comb_grid_def get_char_def length_comb_top comb_top_nth)

lemma comb_get_char1:
  "comb_grid n g \<Longrightarrow> k < 2 * n + 1 \<Longrightarrow> get_char g (int k) 1 = CHR '' ''"
proof -
  assume g: "comb_grid n g" and k: "k < 2 * n + 1"
  from g have l: "lines g ! 1 = replicate (2 * n + 1) CHR '' ''" and h: "height g = 2"
    by (simp_all add: comb_grid_def)
  from k have "replicate (2 * n + 1) CHR '' '' ! k = CHR '' ''" by (rule nth_replicate)
  with l have c: "lines g ! 1 ! k = CHR '' ''" by simp
  from l have "length (lines g ! 1) = 2 * n + 1" by (simp only: length_replicate)
  with k h c show ?thesis by (simp add: get_char_def)
qed

lemma comb_set_room:
  "comb_grid n g \<Longrightarrow> k < 2 * n + 1 \<Longrightarrow> y < 2 \<Longrightarrow>
   set_room g (int k) (int y) c = Inr (g\<lparr>cells := (cells g)[y := (cells g ! y)[k := Some c]]\<rparr>)"
proof -
  assume g: "comb_grid n g" and k: "k < 2 * n + 1" and y: "y < 2"
  from y have "y = 0 \<or> y = 1" by auto
  with g have "length (cells g ! y) = 2 * n + 1" by (auto simp: comb_grid_def)
  with g k y show ?thesis by (simp add: set_room_def py_index_def comb_grid_def)
qed

lemma comb_grid_update:
  "comb_grid n g \<Longrightarrow> y < 2 \<Longrightarrow>
   comb_grid n (g\<lparr>cells := (cells g)[y := (cells g ! y)[k := c]]\<rparr>)"
proof -
  assume g: "comb_grid n g" and y: "y < 2"
  from y have "y = 0 \<or> y = 1" by auto
  then show ?thesis using g by (auto simp: comb_grid_def nth_list_update)
qed

lemma blank_step:
  "CHR '' '' \<notin> CHAIR_CHARS"
  "name_buffer s = None \<Longrightarrow> track_name limit CHR '' '' cur s = Inr s"
  "count_chair limit CHR '' '' cur s = Inr s"
  by (simp_all add: CHAIR_CHARS_def track_name_def count_chair_def)

lemma comb_row0_step:
  assumes inv: "comb_row0 n k s" and k: "k < 2 * n + 1"
  shows "\<exists>s'. scan_cell limit 0 k s = Inr s' \<and> comb_row0 n (Suc k) s'"
proof (cases "even k")
  case False
  from inv have g: "comb_grid n (grid s)" by (simp add: comb_row0_def)
  from comb_get_char0 [OF g k] False have "is_wall (grid s) (int k) (int 0)"
    by (simp add: is_wall_def WALL_CHARS_def)
  then have sc: "scan_cell limit 0 k s = Inr (s\<lparr>current_room := None, name_buffer := None\<rparr>)"
    by (rule scan_cell_wall)
  from False have d: "(Suc k + 1) div 2 = (k + 1) div 2" by presburger
  have c: "(even x \<and> x < Suc k) = (even x \<and> x < k)" for x
    using False by (auto simp: less_Suc_eq)
  from inv False have "comb_row0 n (Suc k) (s\<lparr>current_room := None, name_buffer := None\<rparr>)"
    unfolding comb_row0_def d c by simp
  with sc show ?thesis by simp
next
  case True
  from inv have g: "comb_grid n (grid s)" by (simp add: comb_row0_def)
  from inv True have cur: "current_room s = None" and nb: "name_buffer s = None"
    and rc: "room_counter s = (k + 1) div 2"
    and links: "\<And>a. merged_into (heap s a) = None"
    and row: "\<And>x. x < 2 * n + 1 \<Longrightarrow>
                cells (grid s) ! 0 ! x = (if even x \<and> x < k then Some (x div 2 + 1) else None)"
    by (simp_all add: comb_row0_def)
  let ?j = "Suc (room_counter s)"
  let ?s1 = "s\<lparr>room_counter := ?j, heap := (heap s)(?j := Room (int ?j)), current_room := Some ?j\<rparr>"
  let ?g = "(grid s)\<lparr>cells := (cells (grid s))[0 := (cells (grid s) ! 0)[k := Some ?j]]\<rparr>"
  from comb_get_char0 [OF g k] True have ch: "get_char (grid s) (int k) 0 = CHR '' ''" by simp
  then have nw: "\<not> is_wall (grid s) (int k) (int 0)" by (simp add: is_wall_def WALL_CHARS_def)
  from cur have op: "open_room s = (?s1, ?j)" by (simp add: open_room_def Let_def)
  have ca: "connect_above limit (int k) (int 0) ?j ?s1 = Inr ?s1"
    by (simp add: connect_above_def get_connected_room_above_def)
  from comb_set_room [OF g k, of 0 ?j] have sr: "set_room (grid ?s1) (int k) (int 0) ?j = Inr ?g" by simp
  from op ca sr have en: "enter_cell limit 0 k s = Inr (?s1\<lparr>grid := ?g\<rparr>, ?j)"
    by (simp add: enter_cell_def)
  from nb have sc: "scan_cell limit 0 k s = Inr (?s1\<lparr>grid := ?g\<rparr>)"
    by (simp add: scan_cell_floor [OF nw] en ch blank_step)
  from True have d: "(Suc k + 1) div 2 = Suc ((k + 1) div 2)" by presburger
  from True have kd: "(k + 1) div 2 = k div 2" by presburger
  from g k have len: "k < length (cells (grid s) ! 0)" by (simp add: comb_grid_def)
  from g have len2: "0 < length (cells (grid s))" by (simp add: comb_grid_def)
  have "comb_row0 n (Suc k) (?s1\<lparr>grid := ?g\<rparr>)"
    unfolding comb_row0_def
  proof (intro conjI allI impI)
    show "comb_grid n (grid (?s1\<lparr>grid := ?g\<rparr>))"
      using comb_grid_update [OF g, of 0 k "Some ?j"] by simp
    show "room_counter (?s1\<lparr>grid := ?g\<rparr>) = (Suc k + 1) div 2" using rc d by simp
    show "current_room (?s1\<lparr>grid := ?g\<rparr>) =
            (if odd (Suc k) then Some ((Suc k + 1) div 2) else None)"
      using True rc d by simp
    show "name_buffer (?s1\<lparr>grid := ?g\<rparr>) = None" using nb by simp
    show "merged_into (heap (?s1\<lparr>grid := ?g\<rparr>) a) = None" for a
      using links by (simp add: Room_def)
    show "cells (grid (?s1\<lparr>grid := ?g\<rparr>)) ! 0 ! x =
            (if even x \<and> x < Suc k then Some (x div 2 + 1) else None)"
      if "x < 2 * n + 1" for x
    proof (cases "x = k")
      case True
      with \<open>even k\<close> len len2 rc kd show ?thesis by simp
    next
      case False
      with len2 row [OF that] show ?thesis by (auto simp: less_Suc_eq)
    qed
  qed
  with sc show ?thesis by simp
qed

lemma for_each_upt_Suc:
  "for_each body [0..<Suc k] s =
     (case for_each body [0..<k] s of Inl e \<Rightarrow> Inl e | Inr s1 \<Rightarrow> body k s1)"
  by (simp add: for_each_append split: sum.splits)

lemma comb_row0_loop:
  assumes "comb_row0 n 0 s" and "k \<le> 2 * n + 1"
  shows "\<exists>s'. for_each (scan_cell limit 0) [0..<k] s = Inr s' \<and> comb_row0 n k s'"
  using assms(2)
proof (induction k)
  case 0
  with assms(1) show ?case by simp
next
  case (Suc k)
  then obtain s1 where a: "for_each (scan_cell limit 0) [0..<k] s = Inr s1" and i: "comb_row0 n k s1"
    by auto
  from Suc.prems have "k < 2 * n + 1" by simp
  from comb_row0_step [OF i this, of limit] a show ?case
    by (simp only: for_each_upt_Suc) simp
qed

lemma comb_links_root:
  "even k \<Longrightarrow> k < 2 * n + 1 \<Longrightarrow> comb_links n k (k div 2 + 1) = None"
  by (auto simp: comb_links_def)

lemma merge_with_links:
  "a \<noteq> b \<Longrightarrow>
   merged_into (fst (merge_with h a b) x) = (if x = b then Some a else merged_into (h x))"
  by (simp add: merge_with_distinct)

lemma comb_links_next:
  assumes "even k" and "k < 2 * n + 1"
  shows "(if a = (if k = 0 then n + 2 else k div 2) then Some (k div 2 + 1)
          else if a = n + 2 \<and> 0 < k then Some (k div 2) else comb_links n k a) =
         comb_links n (Suc k) a"
proof -
  from assms(1) have d: "(Suc k + 1) div 2 = k div 2 + 1" "(k + 1) div 2 = k div 2" by presburger+
  from assms have j: "k div 2 \<le> n" by simp
  from assms(1) have z: "k = 0 \<longleftrightarrow> k div 2 = 0" by presburger
  show ?thesis
    unfolding comb_links_def d using j z by (auto simp: max_def)
qed

lemma comb_links_same:
  assumes "odd k"
  shows "comb_links n (Suc k) a = comb_links n k a"
proof -
  from assms have d: "(Suc k + 1) div 2 = (k + 1) div 2" by presburger
  from assms have "0 < k" by (cases k) auto
  then show ?thesis unfolding comb_links_def d by simp
qed

lemma comb_final_current:
  assumes links: "\<And>a. merged_into (h a) = comb_links n k a"
    and ev: "even k" and k: "k < 2 * n + 1" and depth: "min 3 (k div 2 + 1) \<le> limit"
  shows "\<exists>h2. final limit h (n + 2) = Inr (h2, if k = 0 then n + 2 else k div 2) \<and>
           (\<forall>a. merged_into (h2 a) =
                  (if a = n + 2 \<and> 0 < k then Some (k div 2) else comb_links n k a))"
proof -
  from ev have d: "(k + 1) div 2 = k div 2" by presburger
  from ev k have j: "k div 2 \<le> n" by simp
  from ev have "k = 0 \<or> k = 2 \<or> 4 \<le> k" by presburger
  then consider "k = 0" | "k = 2" | "4 \<le> k" by blast
  then show ?thesis
  proof cases
    case 1
    with depth obtain m where m: "limit = Suc m" by (cases limit) auto
    from 1 have "merged_into (h (n + 2)) = None" by (simp add: links comb_links_def)
    with 1 m show ?thesis by (simp add: links)
  next
    case 2
    with depth obtain m where m: "limit = Suc (Suc m)"
      by (cases limit; cases "limit - 1") auto
    from 2 have c: "merged_into (h (n + 2)) = Some 1" by (simp add: links comb_links_def)
    from 2 have r: "merged_into (h 1) = None" by (simp add: links comb_links_def)
    from c r m have "final limit h (n + 2) =
        Inr (h(n + 2 := (h (n + 2))\<lparr>merged_into := Some 1\<rparr>), 1)"
      by simp
    moreover have "merged_into ((h(n + 2 := (h (n + 2))\<lparr>merged_into := Some 1\<rparr>)) a) =
        (if a = n + 2 \<and> 0 < k then Some (k div 2) else comb_links n k a)" for a
      using 2 by (simp add: links)
    ultimately show ?thesis using 2 by simp
  next
    case 3
    with ev have j2: "2 \<le> k div 2" by presburger
    from 3 depth have "3 \<le> limit" by simp
    then obtain m where m: "limit = Suc (Suc (Suc m))"
      by (cases limit; cases "limit - 1"; cases "limit - 2") auto
    let ?j = "k div 2"
    from 3 j2 have c: "merged_into (h (n + 2)) = Some (?j - 1)"
      unfolding links comb_links_def d using j by (auto simp: max_def)
    from j2 have p: "merged_into (h (?j - 1)) = Some ?j"
      unfolding links comb_links_def d by auto
    from j have r: "merged_into (h ?j) = None"
      unfolding links comb_links_def d by auto
    from j j2 have ne: "?j - 1 \<noteq> n + 2" by simp
    let ?h1 = "h(?j - 1 := (h (?j - 1))\<lparr>merged_into := Some ?j\<rparr>)"
    let ?h2 = "?h1(n + 2 := (?h1 (n + 2))\<lparr>merged_into := Some ?j\<rparr>)"
    from r have f0: "final (Suc m) h ?j = Inr (h, ?j)" by simp
    from p f0 have f1: "final (Suc (Suc m)) h (?j - 1) = Inr (?h1, ?j)" by simp
    from c f1 have f2: "final (Suc (Suc (Suc m))) h (n + 2) = Inr (?h2, ?j)" by simp
    have "merged_into (?h2 a) =
        (if a = n + 2 \<and> 0 < k then Some ?j else comb_links n k a)" for a
      using 3 p by (auto simp: links)
    with f2 m 3 show ?thesis by auto
  qed
qed

lemma comb_final_fails:
  assumes links: "\<And>a. merged_into (h a) = comb_links n k a"
    and ev: "even k" and k: "k < 2 * n + 1" and depth: "limit < min 3 (k div 2 + 1)"
  shows "final limit h (n + 2) = Inl RecursionError"
proof -
  from ev have d: "(k + 1) div 2 = k div 2" by presburger
  from ev k have j: "k div 2 \<le> n" by simp
  from depth have "limit < 3" and "limit < k div 2 + 1" by simp_all
  with ev have "limit = 0 \<or> limit = Suc 0 \<and> 2 \<le> k \<or> limit = Suc (Suc 0) \<and> 4 \<le> k"
    by presburger
  then consider "limit = 0" | "limit = Suc 0" "2 \<le> k" | "limit = Suc (Suc 0)" "4 \<le> k"
    by blast
  then show ?thesis
  proof cases
    case 1
    then show ?thesis by simp
  next
    case 2
    then have "merged_into (h (n + 2)) = Some (max 1 (k div 2 - 1))"
      unfolding links comb_links_def d using j by auto
    with 2 show ?thesis by simp
  next
    case 3
    with ev have j2: "2 \<le> k div 2" by presburger
    from 3 j2 have c: "merged_into (h (n + 2)) = Some (k div 2 - 1)"
      unfolding links comb_links_def d using j by (auto simp: max_def)
    from j2 have p: "merged_into (h (k div 2 - 1)) = Some (k div 2)"
      unfolding links comb_links_def d by auto
    from c p 3 show ?thesis by simp
  qed
qed

lemma comb_open_room:
  assumes "comb_row1 n k s"
  shows "\<exists>s1. open_room s = (s1, n + 2) \<and> grid s1 = grid s \<and> room_counter s1 = n + 2 \<and>
           current_room s1 = Some (n + 2) \<and> name_buffer s1 = None \<and>
           (\<forall>a. merged_into (heap s1 a) = comb_links n k a)"
proof (cases "k = 0")
  case True
  let ?s1 = "s\<lparr>room_counter := n + 2, heap := (heap s)(n + 2 := Room (int (n + 2))),
               current_room := Some (n + 2)\<rparr>"
  from assms True have "open_room s = (?s1, n + 2)"
    by (simp add: comb_row1_def open_room_def Let_def)
  moreover have "merged_into (heap ?s1 a) = comb_links n k a" for a
    using assms True by (simp add: comb_row1_def Room_def comb_links_def)
  moreover from assms have "name_buffer ?s1 = None" by (simp add: comb_row1_def)
  ultimately show ?thesis by (intro exI [of _ ?s1]) simp
next
  case False
  with assms have "open_room s = (s, n + 2)" by (simp add: comb_row1_def open_room_def)
  with assms False show ?thesis by (intro exI [of _ s]) (simp add: comb_row1_def)
qed

lemma comb_room_above:
  assumes g: "comb_grid n g" and k: "k < 2 * n + 1"
    and row: "\<forall>x<2 * n + 1. cells g ! 0 ! x = (if even x then Some (x div 2 + 1) else None)"
  shows "get_connected_room_above g (int k) 1 = (if even k then Some (k div 2 + 1) else None)"
proof -
  from g k have "get_room g (int k) 0 = cells g ! 0 ! k" by (simp add: get_room_def comb_grid_def)
  with row k have "get_room g (int k) 0 = (if even k then Some (k div 2 + 1) else None)" by simp
  with comb_get_char0 [OF g k] show ?thesis
    by (simp add: get_connected_room_above_def is_wall_def WALL_CHARS_def)
qed

lemma comb_row1_finish:
  assumes s1: "grid s1 = g" "room_counter s1 = n + 2" "current_room s1 = Some (n + 2)"
      "name_buffer s1 = None"
    and g: "comb_grid n g" and k: "k < 2 * n + 1"
    and row: "\<forall>x<2 * n + 1. cells g ! 0 ! x = (if even x then Some (x div 2 + 1) else None)"
    and links: "\<And>a. merged_into (h a) = comb_links n (Suc k) a"
  shows "comb_row1 n (Suc k)
           (s1\<lparr>heap := h, grid := g\<lparr>cells := (cells g)[Suc 0 := (cells g ! Suc 0)[k := Some (n + 2)]]\<rparr>\<rparr>)"
  unfolding comb_row1_def
proof (intro conjI)
  let ?g = "g\<lparr>cells := (cells g)[Suc 0 := (cells g ! Suc 0)[k := Some (n + 2)]]\<rparr>"
  let ?s = "s1\<lparr>heap := h, grid := ?g\<rparr>"
  from comb_grid_update [OF g, of "Suc 0" k "Some (n + 2)"] show "comb_grid n (grid ?s)" by simp
  from row show "\<forall>x<2 * n + 1. cells (grid ?s) ! 0 ! x = (if even x then Some (x div 2 + 1) else None)"
    by simp
  from s1 show "room_counter ?s = (if Suc k = 0 then n + 1 else n + 2)" by simp
  from s1 show "current_room ?s = (if Suc k = 0 then None else Some (n + 2))" by simp
  from s1 show "name_buffer ?s = None" by simp
  from links show "\<forall>a. merged_into (heap ?s a) = comb_links n (Suc k) a" by simp
qed

lemma comb_row1_step:
  assumes inv: "comb_row1 n k s" and k: "k < 2 * n + 1"
    and depth: "even k \<Longrightarrow> min 3 (k div 2 + 1) \<le> limit"
  shows "\<exists>s'. scan_cell limit (Suc 0) k s = Inr s' \<and> comb_row1 n (Suc k) s'"
proof -
  from comb_open_room [OF inv] obtain s1 where op: "open_room s = (s1, n + 2)"
    and s1: "grid s1 = grid s" "room_counter s1 = n + 2" "current_room s1 = Some (n + 2)"
      "name_buffer s1 = None"
    and links: "\<And>a. merged_into (heap s1 a) = comb_links n k a"
    by blast
  from inv have g: "comb_grid n (grid s)"
    and row: "\<forall>x<2 * n + 1. cells (grid s) ! 0 ! x = (if even x then Some (x div 2 + 1) else None)"
    by (simp_all add: comb_row1_def)
  from comb_get_char1 [OF g k] have ch: "get_char (grid s) (int k) 1 = CHR '' ''" .
  then have nw: "\<not> is_wall (grid s) (int k) (int (Suc 0))" by (simp add: is_wall_def WALL_CHARS_def)
  let ?g = "(grid s)\<lparr>cells := (cells (grid s))[Suc 0 := (cells (grid s) ! Suc 0)[k := Some (n + 2)]]\<rparr>"
  from comb_set_room [OF g k, of "Suc 0" "n + 2"]
  have sr: "set_room (grid s) (int k) 1 (n + 2) = Inr ?g" by simp
  have "\<exists>h. connect_above limit (int k) 1 (n + 2) s1 = Inr (s1\<lparr>heap := h\<rparr>) \<and>
          (\<forall>a. merged_into (h a) = comb_links n (Suc k) a)"
  proof (cases "even k")
    case False
    with comb_room_above [OF g k row] s1
    have "connect_above limit (int k) 1 (n + 2) s1 = Inr (s1\<lparr>heap := heap s1\<rparr>)"
      by (simp add: connect_above_def)
    moreover from False links have "\<forall>a. merged_into (heap s1 a) = comb_links n (Suc k) a"
      by (simp add: comb_links_same)
    ultimately show ?thesis by blast
  next
    case True
    let ?j = "k div 2"
    let ?r = "if k = 0 then n + 2 else ?j"
    from True k have j: "?j \<le> n" by simp
    from True comb_room_above [OF g k row] s1
    have ab: "get_connected_room_above (grid s1) (int k) 1 = Some (?j + 1)" by simp
    from depth [OF True] obtain m where m: "limit = Suc m" by (cases limit) auto
    from links comb_links_root [OF True k] have "merged_into (heap s1 (?j + 1)) = None" by simp
    with m have fa: "final limit (heap s1) (?j + 1) = Inr (heap s1, ?j + 1)" by simp
    from comb_final_current [of "heap s1" n k limit, OF links True k depth [OF True]]
    obtain h2 where fc: "final limit (heap s1) (n + 2) = Inr (h2, ?r)"
      and l2: "\<And>a. merged_into (h2 a) =
                 (if a = n + 2 \<and> 0 < k then Some ?j else comb_links n k a)"
      by blast
    from j have ne: "?j + 1 \<noteq> ?r" by simp
    from ab fa fc ne have "connect_above limit (int k) 1 (n + 2) s1 =
        Inr (s1\<lparr>heap := fst (merge_with h2 (?j + 1) ?r)\<rparr>)"
      by (simp add: connect_above_def)
    moreover have "merged_into (fst (merge_with h2 (?j + 1) ?r) a) = comb_links n (Suc k) a" for a
      unfolding merge_with_links [OF ne] l2 using comb_links_next [OF True k, of a] by simp
    ultimately show ?thesis by blast
  qed
  then obtain h where ca: "connect_above limit (int k) 1 (n + 2) s1 = Inr (s1\<lparr>heap := h\<rparr>)"
    and lh: "\<And>a. merged_into (h a) = comb_links n (Suc k) a"
    by blast
  let ?s3 = "s1\<lparr>heap := h, grid := ?g\<rparr>"
  from op ca sr s1 have en: "enter_cell limit (Suc 0) k s = Inr (?s3, n + 2)"
    by (simp add: enter_cell_def)
  from s1 have nb: "name_buffer ?s3 = None" by simp
  have "scan_cell limit (Suc 0) k s =
     (case enter_cell limit (Suc 0) k s of
        Inl e \<Rightarrow> Inl e
      | Inr (s3, cur) \<Rightarrow>
          (case count_chair limit (get_char (grid s) (int k) (int (Suc 0))) cur s3 of
             Inl e \<Rightarrow> Inl e
           | Inr s4 \<Rightarrow> track_name limit (get_char (grid s) (int k) (int (Suc 0))) cur s4))"
    by (rule scan_cell_floor [OF nw])
  also have "\<dots> = Inr ?s3"
    unfolding en using ch blank_step(2) [OF nb] by (simp add: blank_step(3))
  finally have sc: "scan_cell limit (Suc 0) k s = Inr ?s3" .
  have "comb_row1 n (Suc k) ?s3" by (rule comb_row1_finish [OF s1 g k row lh])
  with sc show ?thesis by blast
qed

lemma comb_row1_fails:
  assumes inv: "comb_row1 n k s" and k: "k < 2 * n + 1"
    and ev: "even k" and depth: "limit < min 3 (k div 2 + 1)"
  shows "scan_cell limit (Suc 0) k s = Inl RecursionError"
proof -
  from comb_open_room [OF inv] obtain s1 where op: "open_room s = (s1, n + 2)"
    and s1: "grid s1 = grid s"
    and links: "\<And>a. merged_into (heap s1 a) = comb_links n k a"
    by blast
  from inv have g: "comb_grid n (grid s)"
    and row: "\<forall>x<2 * n + 1. cells (grid s) ! 0 ! x = (if even x then Some (x div 2 + 1) else None)"
    by (simp_all add: comb_row1_def)
  from comb_get_char1 [OF g k] have ch: "get_char (grid s) (int k) 1 = CHR '' ''" .
  then have nw: "\<not> is_wall (grid s) (int k) 1" by (simp add: is_wall_def WALL_CHARS_def)
  from ev comb_room_above [OF g k row] s1
  have ab: "get_connected_room_above (grid s1) (int k) 1 = Some (k div 2 + 1)" by simp
  have "connect_above limit (int k) 1 (n + 2) s1 = Inl RecursionError"
  proof (cases limit)
    case 0
    with ab show ?thesis by (simp add: connect_above_def)
  next
    case (Suc m)
    from links comb_links_root [OF ev k] have "merged_into (heap s1 (k div 2 + 1)) = None" by simp
    with Suc have fa: "final limit (heap s1) (k div 2 + 1) = Inr (heap s1, k div 2 + 1)" by simp
    from comb_final_fails [of "heap s1" n k limit, OF links ev k depth]
    have "final limit (heap s1) (n + 2) = Inl RecursionError" .
    with ab fa show ?thesis by (simp add: connect_above_def)
  qed
  with op nw show ?thesis by (simp add: scan_cell_def Let_def)
qed

lemma comb_row1_loop:
  assumes "comb_row1 n 0 s" and "k \<le> 2 * n + 1" and "3 \<le> limit \<or> k \<le> 2 * limit"
  shows "\<exists>s'. for_each (scan_cell limit (Suc 0)) [0..<k] s = Inr s' \<and> comb_row1 n k s'"
  using assms(2,3)
proof (induction k)
  case 0
  with assms(1) show ?case by simp
next
  case (Suc k)
  then obtain s1 where a: "for_each (scan_cell limit (Suc 0)) [0..<k] s = Inr s1"
    and i: "comb_row1 n k s1"
    by auto
  from Suc.prems have k: "k < 2 * n + 1" by simp
  have "min 3 (k div 2 + 1) \<le> limit" if "even k"
    using Suc.prems(2) that by (auto simp: min_def)
  from comb_row1_step [OF i k this] a show ?case
    by (simp only: for_each_upt_Suc) simp
qed

lemma final_chain_too_long:
  "(\<And>i. a \<le> i \<Longrightarrow> i < a + k \<Longrightarrow> merged_into (h i) = Some (i + 1)) \<Longrightarrow> limit \<le> k \<Longrightarrow>
   final limit h a = Inl RecursionError"
proof (induction limit arbitrary: a k)
  case 0
  show ?case by simp
next
  case (Suc limit)
  from Suc.prems(2) obtain k' where k: "k = Suc k'" and le: "limit \<le> k'" by (cases k) auto
  from Suc.prems(1) [of a] k have l: "merged_into (h a) = Some (a + 1)" by simp
  have "final limit h (a + 1) = Inl RecursionError"
  proof (rule Suc.IH [OF _ le])
    fix i assume "a + 1 \<le> i" "i < a + 1 + k'"
    with k show "merged_into (h i) = Some (i + 1)" by (intro Suc.prems(1)) simp_all
  qed
  with l show ?case by simp
qed

lemma comb_row0_init:
  "comb_row0 n 0 ((init_scanner (Grid (comb n)))\<lparr>current_room := None, name_buffer := None\<rparr>)"
proof -
  let ?s = "(init_scanner (Grid (comb n)))\<lparr>current_room := None, name_buffer := None\<rparr>"
  have c: "cells (grid ?s) ! 0 = replicate (2 * n + 1) None"
    by (simp add: init_scanner_def Grid_comb)
  have "cells (grid ?s) ! 0 ! x = None" if "x < 2 * n + 1" for x
    unfolding c using that by (rule nth_replicate)
  moreover have "comb_grid n (grid ?s)"
    by (simp add: comb_grid_def init_scanner_def Grid_comb)
  moreover have "room_counter ?s = 0" "current_room ?s = None" "name_buffer ?s = None"
      "merged_into (heap ?s a) = None" for a
    by (simp_all add: init_scanner_def Room_def)
  ultimately show ?thesis by (simp add: comb_row0_def)
qed

lemma comb_row1_init:
  assumes "comb_row0 n (2 * n + 1) s"
  shows "comb_row1 n 0 (s\<lparr>current_room := None, name_buffer := None\<rparr>)"
proof -
  have "(2 * n + 1 + 1) div 2 = n + 1" by simp
  with assms show ?thesis by (simp add: comb_row0_def comb_row1_def comb_links_def)
qed

lemma comb_first_row:
  "\<exists>s. scan_row limit 0 (init_scanner (Grid (comb n))) = Inr s \<and> comb_row0 n (2 * n + 1) s"
proof -
  have w: "width (grid (init_scanner (Grid (comb n)))) = 2 * n + 1"
    by (simp add: init_scanner_def Grid_comb)
  from comb_row0_loop [OF comb_row0_init, of "2 * n + 1" n limit] show ?thesis
    unfolding scan_row_def w by simp
qed

lemma comb_scan:
  assumes s0: "scan_row limit 0 (init_scanner (Grid (comb n))) = Inr s0"
  shows "scan limit (comb n) = scan_row limit (Suc 0) s0"
proof -
  have "[0..<height (Grid (comb n))] = [0, Suc 0]" by (simp add: Grid_comb numeral_2_eq_2)
  with s0 show ?thesis by (simp add: scan_def Let_def split: sum.splits)
qed

lemma comb_extraction_fails:
  assumes inv: "comb_row1 n (2 * n + 1) s" and lim: "limit \<le> n"
  shows "extract_unique_rooms limit (grid s) (heap s) = Inl RecursionError"
proof -
  from inv have g: "comb_grid n (grid s)"
    and row: "\<forall>x<2 * n + 1. cells (grid s) ! 0 ! x = (if even x then Some (x div 2 + 1) else None)"
    and links: "\<And>a. merged_into (heap s a) = comb_links n (2 * n + 1) a"
    by (simp_all add: comb_row1_def)
  from g obtain r0 rest where cs: "cells (grid s) = r0 # rest"
    by (cases "cells (grid s)") (auto simp: comb_grid_def)
  with g have "length r0 = 2 * n + 1" by (simp add: comb_grid_def)
  then obtain c0 rest0 where r0: "r0 = c0 # rest0" by (cases r0) auto
  from row cs r0 have c0: "c0 = Some 1" by auto
  have "final limit (heap s) 1 = Inl RecursionError"
  proof (rule final_chain_too_long [OF _ lim])
    fix i :: nat assume "1 \<le> i" "i < 1 + n"
    then show "merged_into (heap s i) = Some (i + 1)" by (simp add: links comb_links_def)
  qed
  then have "extract_cell limit (Some 1) (heap s, {}, [], []) = Inl RecursionError"
    by (simp add: extract_cell_def)
  with cs r0 c0 show ?thesis by (simp add: extract_unique_rooms_def)
qed

lemma comb_second_row_fails:
  assumes inv: "comb_row0 n (2 * n + 1) s0" and lim: "limit \<le> n" and small: "limit < 3"
  shows "scan_row limit (Suc 0) s0 = Inl RecursionError"
proof -
  let ?s = "s0\<lparr>current_room := None, name_buffer := None\<rparr>"
  let ?k = "2 * limit"
  from inv have w: "width (grid s0) = 2 * n + 1" by (simp add: comb_row0_def comb_grid_def)
  from lim have k: "?k < 2 * n + 1" by simp
  from comb_row1_loop [OF comb_row1_init [OF inv], of ?k limit] k
  obtain s where a: "for_each (scan_cell limit (Suc 0)) [0..<?k] ?s = Inr s"
    and i: "comb_row1 n ?k s"
    by auto
  from small have "limit < min 3 (?k div 2 + 1)" by simp
  from comb_row1_fails [OF i k _ this] have f: "scan_cell limit (Suc 0) ?k s = Inl RecursionError"
    by simp
  from k have "[0..<2 * n + 1] = [0..<?k] @ [?k..<2 * n + 1]"
    using upt_add_eq_append [of 0 ?k "2 * n + 1 - ?k"] by simp
  also from k have "[?k..<2 * n + 1] = ?k # [Suc ?k..<2 * n + 1]" by (rule upt_conv_Cons)
  finally have "for_each (scan_cell limit (Suc 0)) [0..<2 * n + 1] ?s = Inl RecursionError"
    using a f by (simp only: for_each_append for_each.simps sum.case)
  then show ?thesis by (simp only: scan_row_def w)
qed

text \<open>The depth needed is exactly the number of compartments: with one frame more, \<^verbatim>\<open>parse\<close> returns.\<close>

lemma comb_depth_enough:
  "map_sum id (\<lambda>(rooms, err). (map snapshot rooms, err)) (parse 12 (comb 12)) =
     Inl RecursionError \<and>
   map_sum id (\<lambda>(rooms, err). (map snapshot rooms, err)) (parse 13 (comb 12)) = Inr ([], [])"
  by code_simp

text \<open>
  C7.  The claim: for every input \<^verbatim>\<open>parse\<close> returns and raises nothing.  The recursion of
  \<^verbatim>\<open>final\<close> is as deep as the chain of links it follows, and path compression does not
  keep the chains short: compartments side by side that open onto one corridor below
  are linked one to the next, and the first call of \<^verbatim>\<open>final\<close> in the extraction, on the
  leftmost compartment, goes through all of them.  So whatever depth \<open>limit\<close> the
  interpreter allows to \<^verbatim>\<open>final\<close>, the plan with \<open>limit + 1\<close> compartments (or more)
  makes \<^verbatim>\<open>parse\<close> end in \<^verbatim>\<open>RecursionError\<close>; at the interpreter's default limit of 1000
  frames that is the plan \<open>comb 1000\<close>, two lines of 2001 characters.
\<close>

theorem parse_recursion_error:
  "limit \<le> n \<Longrightarrow> parse limit (comb n) = Inl RecursionError"
proof -
  assume lim: "limit \<le> n"
  from comb_first_row [of limit n] obtain s0
    where s0: "scan_row limit 0 (init_scanner (Grid (comb n))) = Inr s0"
      and i0: "comb_row0 n (2 * n + 1) s0"
    by blast
  have h: "height (Grid (comb n)) \<noteq> 0" by (simp add: Grid_comb)
  show ?thesis
  proof (cases "limit < 3")
    case True
    from comb_second_row_fails [OF i0 lim True] comb_scan [OF s0]
    have "scan limit (comb n) = Inl RecursionError" by simp
    with h show ?thesis by (simp add: parse_def)
  next
    case False
    from i0 have w: "width (grid s0) = 2 * n + 1" by (simp add: comb_row0_def comb_grid_def)
    from False comb_row1_loop [OF comb_row1_init [OF i0], of "2 * n + 1" limit]
    obtain s where a: "scan_row limit (Suc 0) s0 = Inr s" and i: "comb_row1 n (2 * n + 1) s"
      unfolding scan_row_def w by auto
    from a comb_scan [OF s0] have "scan limit (comb n) = Inr s" by simp
    with h comb_extraction_fails [OF i lim] show ?thesis by (simp add: parse_def)
  qed
qed

theorem parse_recursion_error_witness:
  "(1000 :: nat) \<le> 1000 \<and> parse 1000 (comb 1000) = Inl RecursionError"
  using parse_recursion_error [of 1000 1000] by simp

end
